theory Spec2Isabelle
  imports Complex_Main
begin

section \<open>Synthetic event stream generator: the run's environment\<close>

text \<open>
  The generator reads three sources that are outside its own code:
  numpy's global random stream (seeded with \<open>SEED = 42\<close>), Faker's sentence
  generator (seeded with the same value), and \<open>uuid.uuid4\<close>, which reads sixteen
  bytes of operating-system entropy and is not touched by either seed.  Each source
  is an infinite stream of raw outcomes indexed by the number of calls made so far;
  the counters are the only mutable state that survives between calls.

  The module-level globals that the functions read are fields of the same record:
  the pool sizes, the two permutations built at import time, the instant \<open>NOW\<close>
  (microseconds since the epoch, as a \<open>datetime\<close> carries it), the byte budget, the
  chunk size, and the sample size that \<open>main\<close> passes to \<open>estimate_avg_row_bytes\<close>.
  The source fixes \<open>USER_POOL_SIZE = 10000\<close>, \<open>BOOK_POOL_SIZE = 5000\<close>,
  \<open>TARGET_BYTES = 100 * 1024 * 1024\<close>, \<open>DEFAULT_CHUNK_ROWS = 200000\<close> and the sample
  size 2000; the functions below read them from the record, so that they can be run on
  other values as well.
\<close>

datatype error = IndexError | ZeroDivisionError | FileNotFoundError

record env =
  np_raw :: "nat \<Rightarrow> int"
  os_urandom :: "nat \<Rightarrow> int"
  fake_sentence :: "nat \<Rightarrow> int \<Rightarrow> string"
  NOW :: int
  USER_POOL_SIZE :: int
  BOOK_POOL_SIZE :: int
  USER_ID_MAP :: "int list"
  BOOK_ID_MAP :: "int list"
  TARGET_BYTES :: int
  DEFAULT_CHUNK_ROWS :: int
  SAMPLE_ROWS :: int

record rstate =
  np_pos :: nat
  uuid_pos :: nat
  fake_pos :: nat

definition GEOM_P :: rat where
  "GEOM_P = 3 / 10"

definition MAX_SESSION_LEN :: int where
  "MAX_SESSION_LEN = 20"

definition EVENT_TYPES :: "string list" where
  "EVENT_TYPES = [''read_online'', ''download'', ''review'', ''search'']"

definition PLATFORMS :: "string list" where
  "PLATFORMS = [''web_browser'', ''mobile_app'']"

definition DL_FORMATS :: "string list" where
  "DL_FORMATS = [''epub'', ''pdf'', ''mobi'', ''audiobook'']"

definition DEVICE_OSES :: "string list" where
  "DEVICE_OSES = [''iOS'', ''Android'', ''Windows'', ''macOS'', ''Linux'']"

definition RATINGS :: "int list" where
  "RATINGS = [1, 2, 3, 4, 5]"

definition SEARCH_VOCAB :: "string list" where
  "SEARCH_VOCAB =
    [''dystopian'', ''sci-fi'', ''fantasy'', ''mystery'', ''romance'', ''historical'',
     ''self-help'', ''philosophy'', ''classic'', ''thriller'', ''nonfiction'',
     ''biography'', ''young-adult'', ''horror'', ''poetry'', ''business'', ''economics'',
     ''psychology'', ''productivity'', ''data-science'', ''machine-learning'', ''ai'',
     ''programming'', ''python'', ''java'', ''networks'', ''security'', ''cooking'',
     ''travel'', ''photography'', ''art'', ''music'', ''health'', ''fitness'',
     ''mindfulness'', ''education'', ''children'', ''graphic-novel'']"

subsection \<open>The numpy primitives\<close>

text \<open>
  Every primitive consumes one raw outcome and maps it onto the support that numpy
  documents for it, so that each value the library can return is returned for some raw
  outcome.  The weights of the distributions (the skew exponent, the geometric
  parameter, the probability tables, all of whose entries are positive) decide how
  often a value occurs, not whether it can occur, and are therefore not part of the
  result.
\<close>

definition np_next :: "env \<Rightarrow> rstate \<Rightarrow> int \<times> rstate" where
  "np_next e st = (np_raw e (np_pos st), st\<lparr>np_pos := Suc (np_pos st)\<rparr>)"

definition np_zipf :: "env \<Rightarrow> rat \<Rightarrow> rstate \<Rightarrow> int \<times> rstate" where
  "np_zipf e a st = (case np_next e st of (x, st') \<Rightarrow> (1 + \<bar>x\<bar>, st'))"

definition np_geometric :: "env \<Rightarrow> rat \<Rightarrow> rstate \<Rightarrow> int \<times> rstate" where
  "np_geometric e p st = (case np_next e st of (x, st') \<Rightarrow> (1 + \<bar>x\<bar>, st'))"

definition np_randint :: "env \<Rightarrow> int \<Rightarrow> int \<Rightarrow> rstate \<Rightarrow> int \<times> rstate" where
  "np_randint e low high st =
     (case np_next e st of (x, st') \<Rightarrow> (low + x mod (high - low), st'))"

definition np_choice :: "env \<Rightarrow> 'a list \<Rightarrow> rstate \<Rightarrow> 'a \<times> rstate" where
  "np_choice e arr st = (case np_next e st of (x, st') \<Rightarrow> (arr ! nat (x mod int (length arr)), st'))"

fun np_choice_size :: "env \<Rightarrow> 'a list \<Rightarrow> nat \<Rightarrow> rstate \<Rightarrow> 'a list \<times> rstate" where
  "np_choice_size e arr 0 st = ([], st)"
| "np_choice_size e arr (Suc n) st =
     (case np_choice e arr st of (x, st') \<Rightarrow>
        (case np_choice_size e arr n st' of (xs, st'') \<Rightarrow> (x # xs, st'')))"

fun np_choice_noreplace :: "env \<Rightarrow> 'a list \<Rightarrow> nat \<Rightarrow> rstate \<Rightarrow> 'a list \<times> rstate" where
  "np_choice_noreplace e arr 0 st = ([], st)"
| "np_choice_noreplace e arr (Suc n) st =
     (case np_next e st of (x, st') \<Rightarrow>
        (let i = nat (x mod int (length arr)) in
         case np_choice_noreplace e (take i arr @ drop (Suc i) arr) n st' of
           (xs, st'') \<Rightarrow> (arr ! i # xs, st'')))"

definition np_gamma :: "env \<Rightarrow> rstate \<Rightarrow> rat \<times> rstate" where
  "np_gamma e st = (case np_next e st of (x, st') \<Rightarrow> ((of_int \<bar>x\<bar> + 1) / 1000, st'))"

definition np_poisson :: "env \<Rightarrow> rstate \<Rightarrow> int \<times> rstate" where
  "np_poisson e st = (case np_next e st of (x, st') \<Rightarrow> (\<bar>x\<bar>, st'))"

definition np_clip :: "'a::linorder \<Rightarrow> 'a \<Rightarrow> 'a \<Rightarrow> 'a" where
  "np_clip x lo hi = min (max x lo) hi"

subsection \<open>Time\<close>

text \<open>
  A \<open>datetime\<close> is its number of microseconds since the epoch.  \<open>int(d.timestamp())\<close>
  truncates towards zero; \<open>strftime\<close> with a format that stops at the seconds shows the
  second the instant lies in.
\<close>

definition int_timestamp :: "int \<Rightarrow> int" where
  "int_timestamp d = (if 0 \<le> d then d div 1000000 else - ((- d) div 1000000))"

definition START :: "env \<Rightarrow> int" where
  "START e = NOW e - 730 * 86400 * 1000000"

definition START_TS :: "env \<Rightarrow> int" where
  "START_TS e = int_timestamp (START e)"

definition END_TS :: "env \<Rightarrow> int" where
  "END_TS e = int_timestamp (NOW e)"

definition datetime_fromtimestamp :: "int \<Rightarrow> int" where
  "datetime_fromtimestamp ts = ts * 1000000"

definition second_of :: "int \<Rightarrow> int" where
  "second_of d = d div 1000000"

definition rand_ts_last_two_years :: "env \<Rightarrow> rstate \<Rightarrow> int \<times> rstate" where
  "rand_ts_last_two_years e st =
     (case np_randint e (START_TS e) (END_TS e + 1) st of
        (ts, st') \<Rightarrow> (datetime_fromtimestamp ts, st'))"

section \<open>The identifier sampler\<close>

text \<open>
  \<open>mapping[r - 1]\<close> on a numpy array: a negative index counts from the end, an index
  outside the array raises.
\<close>

definition getitem :: "'a list \<Rightarrow> int \<Rightarrow> error + 'a" where
  "getitem xs i =
     (if 0 \<le> i \<and> i < int (length xs) then Inr (xs ! nat i)
      else if i < 0 \<and> - int (length xs) \<le> i then Inr (xs ! nat (int (length xs) + i))
      else Inl IndexError)"

text \<open>
  The rejection loop \<open>while r > max_id: r = np.random.zipf(a)\<close>.  Nothing in it
  counts the attempts, so it is a partial function: \<open>None\<close> is the run that never
  leaves the loop.
\<close>

partial_function (option) zipf_loop ::
  "env \<Rightarrow> int \<Rightarrow> rat \<Rightarrow> int \<Rightarrow> rstate \<Rightarrow> (int \<times> rstate) option" where
  "zipf_loop e max_id a r st =
     (if r > max_id
      then (case np_zipf e a st of (r', st') \<Rightarrow> zipf_loop e max_id a r' st')
      else Some (r, st))"

definition draw_zipf_id ::
  "env \<Rightarrow> int \<Rightarrow> rat \<Rightarrow> int list \<Rightarrow> rstate \<Rightarrow> (error + int \<times> rstate) option" where
  "draw_zipf_id e max_id a mapping st =
     (case np_zipf e a st of (r0, st0) \<Rightarrow>
        (case zipf_loop e max_id a r0 st0 of
           None \<Rightarrow> None
         | Some (r, st') \<Rightarrow>
             (case getitem mapping (r - 1) of
                Inl err \<Rightarrow> Some (Inl err)
              | Inr v \<Rightarrow> Some (Inr (v, st')))))"

section \<open>Session planning\<close>

declare zipf_loop.simps [code]

partial_function (option) session_loop ::
  "env \<Rightarrow> int \<Rightarrow> rat \<Rightarrow> int \<Rightarrow> int list \<Rightarrow> int \<Rightarrow> rstate
     \<Rightarrow> ((int list \<times> int) \<times> rstate) option" where
  "session_loop e n_target p max_len lengths tot st =
     (if tot < n_target
      then (case np_geometric e p st of (g, st') \<Rightarrow>
              (let lenght = (if g > max_len then max_len else g)
               in session_loop e n_target p max_len (lengths @ [lenght]) (tot + lenght) st'))
      else Some ((lengths, tot), st))"

declare session_loop.simps [code]

definition draw_session_lengths ::
  "env \<Rightarrow> int \<Rightarrow> rat \<Rightarrow> int \<Rightarrow> rstate \<Rightarrow> ((int list \<times> int) \<times> rstate) option" where
  "draw_session_lengths e n_target p max_len st = session_loop e n_target p max_len [] 0 st"

section \<open>Text rendering\<close>

subsection \<open>Decimal and hexadecimal numerals\<close>

definition digit_char :: "nat \<Rightarrow> char" where
  "digit_char n = ''0123456789'' ! n"

text \<open>The decimal digits of a non-negative integer, and \<open>str\<close> of any integer.\<close>

function str_digits :: "int \<Rightarrow> string" where
  "str_digits n =
     (if n < 10 then [digit_char (nat n)]
      else str_digits (n div 10) @ [digit_char (nat (n mod 10))])"
  by pat_completeness auto
termination
  by (relation "measure nat") auto

declare str_digits.simps [simp del]

definition str_int :: "int \<Rightarrow> string" where
  "str_int i = (if i < 0 then CHR ''-'' # str_digits (- i) else str_digits i)"

definition hex_char :: "nat \<Rightarrow> char" where
  "hex_char n = ''0123456789abcdef'' ! n"

fun hex_pad :: "nat \<Rightarrow> int \<Rightarrow> string" where
  "hex_pad 0 x = []"
| "hex_pad (Suc n) x = hex_pad n (x div 16) @ [hex_char (nat (x mod 16))]"

subsection \<open>Random tokens\<close>

text \<open>
  \<open>uuid.uuid4()\<close> builds a 128-bit integer from sixteen bytes of \<open>os.urandom\<close>, forces
  the variant and version bits, and \<open>str\<close> prints it as 32 lower-case hexadecimal digits in
  groups of 8, 4, 4, 4 and 12.
\<close>

definition uuid_int :: "int \<Rightarrow> int" where
  "uuid_int x =
     (let i0 = x mod 2 ^ 128;
          i1 = and i0 (not (push_bit 48 0xc000));
          i2 = or i1 (push_bit 48 0x8000);
          i3 = and i2 (not (push_bit 64 0xf000));
          i4 = or i3 (push_bit 76 4)
      in i4)"

definition str_uuid :: "int \<Rightarrow> string" where
  "str_uuid i =
     (let h = hex_pad 32 i
      in take 8 h @ ''-'' @ take 4 (drop 8 h) @ ''-'' @ take 4 (drop 12 h) @ ''-''
         @ take 4 (drop 16 h) @ ''-'' @ drop 20 h)"

definition uuid4 :: "env \<Rightarrow> rstate \<Rightarrow> string \<times> rstate" where
  "uuid4 e st =
     (str_uuid (uuid_int (os_urandom e (uuid_pos st))), st\<lparr>uuid_pos := Suc (uuid_pos st)\<rparr>)"

definition fake_sentence_call :: "env \<Rightarrow> int \<Rightarrow> rstate \<Rightarrow> string \<times> rstate" where
  "fake_sentence_call e nb_words st =
     (fake_sentence e (fake_pos st) nb_words, st\<lparr>fake_pos := Suc (fake_pos st)\<rparr>)"

subsection \<open>Compact JSON\<close>

text \<open>
  The metadata objects hold integers, strings and lists of strings.  \<open>json.dumps\<close> with
  \<open>separators=(",", ":")\<close> and \<open>ensure_ascii=False\<close> writes no white space and escapes,
  inside a string, the quote, the backslash and the control characters below \<open>0x20\<close>.
\<close>

datatype jvalue = JInt int | JStr string | JStrs "string list"

type_synonym jobject = "(string \<times> jvalue) list"

definition escape_char :: "char \<Rightarrow> string" where
  "escape_char c =
     (if c = CHR 0x22 then [CHR 0x5C, CHR 0x22]
      else if c = CHR 0x5C then [CHR 0x5C, CHR 0x5C]
      else if c = CHR 0x08 then [CHR 0x5C, CHR ''b'']
      else if c = CHR 0x0C then [CHR 0x5C, CHR ''f'']
      else if c = CHR 0x0A then [CHR 0x5C, CHR ''n'']
      else if c = CHR 0x0D then [CHR 0x5C, CHR ''r'']
      else if c = CHR 0x09 then [CHR 0x5C, CHR ''t'']
      else if (of_char c :: nat) < 32 then [CHR 0x5C, CHR ''u''] @ hex_pad 4 (of_char c)
      else [c])"

definition dumps_str :: "string \<Rightarrow> string" where
  "dumps_str s = CHR 0x22 # concat (map escape_char s) @ [CHR 0x22]"

fun join :: "string \<Rightarrow> string list \<Rightarrow> string" where
  "join sep [] = []"
| "join sep [x] = x"
| "join sep (x # y # ys) = x @ sep @ join sep (y # ys)"

fun dumps_value :: "jvalue \<Rightarrow> string" where
  "dumps_value (JInt i) = str_int i"
| "dumps_value (JStr s) = dumps_str s"
| "dumps_value (JStrs xs) = ''['' @ join '','' (map dumps_str xs) @ '']''"

definition dumps_member :: "string \<times> jvalue \<Rightarrow> string" where
  "dumps_member kv = dumps_str (fst kv) @ '':'' @ dumps_value (snd kv)"

definition json_dumps :: "jobject \<Rightarrow> string" where
  "json_dumps obj = ''{'' @ join '','' (map dumps_member obj) @ ''}''"

subsection \<open>Reading compact JSON back\<close>

text \<open>
  What \<open>json.loads\<close> makes of a text in the compact form above: an object whose values
  are integers, strings or lists of strings, with no white space between the tokens.
  Anything else is rejected.  A string may not contain a raw control character, and an
  escape is one of the two-character escapes or \<open>\\u\<close> with four hexadecimal digits.
\<close>

definition is_digit :: "char \<Rightarrow> bool" where
  "is_digit c = (c \<in> set ''0123456789'')"

definition digit_val :: "char \<Rightarrow> int" where
  "digit_val c = of_char c - 48"

fun digits_val :: "string \<Rightarrow> int \<Rightarrow> int" where
  "digits_val [] acc = acc"
| "digits_val (c # cs) acc = digits_val cs (acc * 10 + digit_val c)"

definition parse_int :: "string \<Rightarrow> (int \<times> string) option" where
  "parse_int s =
     (case s of
        [] \<Rightarrow> None
      | c # cs \<Rightarrow>
          if c = CHR ''-''
          then (if takeWhile is_digit cs = [] then None
                else Some (- digits_val (takeWhile is_digit cs) 0, dropWhile is_digit cs))
          else (if takeWhile is_digit s = [] then None
                else Some (digits_val (takeWhile is_digit s) 0, dropWhile is_digit s)))"

definition hex_val :: "char \<Rightarrow> int option" where
  "hex_val c =
     (if is_digit c then Some (of_char c - 48)
      else if c \<in> set ''abcdef'' then Some (of_char c - 87)
      else if c \<in> set ''ABCDEF'' then Some (of_char c - 55)
      else None)"

definition unescape_char :: "char \<Rightarrow> char option" where
  "unescape_char d =
     (if d = CHR 0x22 then Some (CHR 0x22)
      else if d = CHR 0x5C then Some (CHR 0x5C)
      else if d = CHR ''/'' then Some (CHR ''/'')
      else if d = CHR ''b'' then Some (CHR 0x08)
      else if d = CHR ''f'' then Some (CHR 0x0C)
      else if d = CHR ''n'' then Some (CHR 0x0A)
      else if d = CHR ''r'' then Some (CHR 0x0D)
      else if d = CHR ''t'' then Some (CHR 0x09)
      else None)"

definition unhex4 :: "char \<Rightarrow> char \<Rightarrow> char \<Rightarrow> char \<Rightarrow> char option" where
  "unhex4 h1 h2 h3 h4 =
     (case (hex_val h1, hex_val h2, hex_val h3, hex_val h4) of
        (Some a, Some b, Some c, Some d) \<Rightarrow>
          (let v = ((a * 16 + b) * 16 + c) * 16 + d
           in if v < 256 then Some (char_of v) else None)
      | _ \<Rightarrow> None)"

fun parse_chars :: "string \<Rightarrow> (string \<times> string) option" where
  "parse_chars [] = None"
| "parse_chars (c # cs) =
     (if c = CHR 0x22 then Some ([], cs)
      else if c = CHR 0x5C then
        (case cs of
           [] \<Rightarrow> None
         | d # ds \<Rightarrow>
             if d = CHR ''u'' then
               (case ds of
                  h1 # h2 # h3 # h4 # rest \<Rightarrow>
                    (case unhex4 h1 h2 h3 h4 of
                       None \<Rightarrow> None
                     | Some x \<Rightarrow>
                         (case parse_chars rest of
                            None \<Rightarrow> None
                          | Some (s, r) \<Rightarrow> Some (x # s, r)))
                | _ \<Rightarrow> None)
             else
               (case unescape_char d of
                  None \<Rightarrow> None
                | Some x \<Rightarrow>
                    (case parse_chars ds of
                       None \<Rightarrow> None
                     | Some (s, r) \<Rightarrow> Some (x # s, r))))
      else if (of_char c :: int) < 32 then None
      else (case parse_chars cs of
              None \<Rightarrow> None
            | Some (s, r) \<Rightarrow> Some (c # s, r)))"

definition parse_str :: "string \<Rightarrow> (string \<times> string) option" where
  "parse_str s = (case s of [] \<Rightarrow> None | c # cs \<Rightarrow> if c = CHR 0x22 then parse_chars cs else None)"

lemma parse_chars_shorter: "parse_chars s = Some (x, r) \<Longrightarrow> length r < length s"
proof (induction s arbitrary: x r rule: parse_chars.induct)
  case 1
  then show ?case by simp
next
  case (2 c cs)
  then show ?case
    by (auto split: if_splits list.splits option.splits prod.splits) fastforce+
qed

lemma parse_str_shorter: "parse_str s = Some (x, r) \<Longrightarrow> length r < length s"
  by (auto simp: parse_str_def split: list.splits if_splits dest: parse_chars_shorter)

function parse_strs_tail :: "string \<Rightarrow> (string list \<times> string) option" where
  "parse_strs_tail [] = None"
| "parse_strs_tail (c # cs) =
     (if c = CHR '']'' then Some ([], cs)
      else if c = CHR '','' then
        (case parse_str cs of
           None \<Rightarrow> None
         | Some (x, r) \<Rightarrow>
             (case parse_strs_tail r of
                None \<Rightarrow> None
              | Some (xs, r') \<Rightarrow> Some (x # xs, r')))
      else None)"
  by pat_completeness auto
termination
  by (relation "measure length") (auto dest: parse_str_shorter)


definition parse_strs :: "string \<Rightarrow> (string list \<times> string) option" where
  "parse_strs s =
     (case s of
        [] \<Rightarrow> None
      | c # cs \<Rightarrow>
          if c = CHR '']'' then Some ([], cs)
          else (case parse_str s of
                  None \<Rightarrow> None
                | Some (x, r) \<Rightarrow>
                    (case parse_strs_tail r of
                       None \<Rightarrow> None
                     | Some (xs, r') \<Rightarrow> Some (x # xs, r'))))"

definition parse_value :: "string \<Rightarrow> (jvalue \<times> string) option" where
  "parse_value s =
     (case s of
        [] \<Rightarrow> None
      | c # cs \<Rightarrow>
          if c = CHR 0x22 then
            (case parse_chars cs of None \<Rightarrow> None | Some (x, r) \<Rightarrow> Some (JStr x, r))
          else if c = CHR ''['' then
            (case parse_strs cs of None \<Rightarrow> None | Some (xs, r) \<Rightarrow> Some (JStrs xs, r))
          else
            (case parse_int s of None \<Rightarrow> None | Some (i, r) \<Rightarrow> Some (JInt i, r)))"

definition parse_member :: "string \<Rightarrow> ((string \<times> jvalue) \<times> string) option" where
  "parse_member s =
     (case parse_str s of
        None \<Rightarrow> None
      | Some (k, r) \<Rightarrow>
          (case r of
             [] \<Rightarrow> None
           | c # cs \<Rightarrow>
               if c = CHR '':'' then
                 (case parse_value cs of None \<Rightarrow> None | Some (v, r') \<Rightarrow> Some ((k, v), r'))
               else None))"

lemma parse_strs_tail_shorter: "parse_strs_tail s = Some (xs, r) \<Longrightarrow> length r < length s"
proof (induction s arbitrary: xs r rule: parse_strs_tail.induct)
  case 1
  then show ?case by simp
next
  case (2 c cs)
  then show ?case
    by (auto split: if_splits option.splits prod.splits dest!: parse_str_shorter) fastforce+
qed

lemma parse_strs_shorter: "parse_strs s = Some (xs, r) \<Longrightarrow> length r < length s"
  by (auto simp: parse_strs_def split: list.splits if_splits option.splits prod.splits
      dest!: parse_str_shorter parse_strs_tail_shorter)

lemma parse_int_shorter: "parse_int s = Some (i, r) \<Longrightarrow> length r < length s"
proof -
  have *: "takeWhile P xs \<noteq> [] \<Longrightarrow> length (dropWhile P xs) < length xs" for P and xs :: string
    by (cases xs) (auto simp: le_imp_less_Suc length_dropWhile_le split: if_splits)
  assume "parse_int s = Some (i, r)"
  then show ?thesis
    using * [of is_digit s] * [of is_digit "tl s"]
    by (cases s) (auto simp: parse_int_def split: if_splits)
qed

lemma parse_value_shorter: "parse_value s = Some (v, r) \<Longrightarrow> length r < length s"
  by (auto simp: parse_value_def split: list.splits if_splits option.splits prod.splits
      dest!: parse_chars_shorter parse_strs_shorter parse_int_shorter)

lemma parse_member_shorter: "parse_member s = Some (kv, r) \<Longrightarrow> length r < length s"
  by (auto simp: parse_member_def split: list.splits if_splits option.splits prod.splits
      dest!: parse_str_shorter parse_value_shorter)

function parse_members_tail :: "string \<Rightarrow> (jobject \<times> string) option" where
  "parse_members_tail [] = None"
| "parse_members_tail (c # cs) =
     (if c = CHR ''}'' then Some ([], cs)
      else if c = CHR '','' then
        (case parse_member cs of
           None \<Rightarrow> None
         | Some (kv, r) \<Rightarrow>
             (case parse_members_tail r of
                None \<Rightarrow> None
              | Some (kvs, r') \<Rightarrow> Some (kv # kvs, r')))
      else None)"
  by pat_completeness auto
termination
  by (relation "measure length") (auto dest: parse_member_shorter)

definition json_loads :: "string \<Rightarrow> jobject option" where
  "json_loads s =
     (case s of
        [] \<Rightarrow> None
      | c # cs \<Rightarrow>
          if c = CHR ''{'' then
            (case cs of
               [] \<Rightarrow> None
             | d # ds \<Rightarrow>
                 if d = CHR ''}'' then (if ds = [] then Some [] else None)
                 else (case parse_member cs of
                         None \<Rightarrow> None
                       | Some (kv, r) \<Rightarrow>
                           (case parse_members_tail r of
                              None \<Rightarrow> None
                            | Some (kvs, r') \<Rightarrow> if r' = [] then Some (kv # kvs) else None)))
          else None)"

section \<open>The chunk generator\<close>

text \<open>
  The seven column lists of \<open>cols\<close> grow in lock step, one entry each per event, so
  the frame is a list of rows.  The \<open>event_timestamp\<close> column holds the second that
  \<open>strftime\<close> prints; the text itself is produced where the frame is written out.
\<close>

record row =
  event_id :: string
  event_timestamp :: int
  event_type :: string
  user_id :: int
  book_id :: int
  session_id :: string
  event_metadata :: string

definition and_then ::
  "(error + 'a) option \<Rightarrow> ('a \<Rightarrow> (error + 'b) option) \<Rightarrow> (error + 'b) option" where
  "and_then m f = (case m of None \<Rightarrow> None | Some (Inl err) \<Rightarrow> Some (Inl err) | Some (Inr x) \<Rightarrow> f x)"

definition meta_read_online :: "env \<Rightarrow> rstate \<Rightarrow> jobject \<times> rstate" where
  "meta_read_online e st =
     (case np_gamma e st of (g, st1) \<Rightarrow>
        (let duration = \<lfloor>np_clip g 1 300\<rfloor> in
         case np_choice e PLATFORMS st1 of (platform, st2) \<Rightarrow>
           ([(''reading_duration_minutes'', JInt duration), (''platform'', JStr platform)], st2)))"

definition meta_download :: "env \<Rightarrow> rstate \<Rightarrow> jobject \<times> rstate" where
  "meta_download e st =
     (case np_choice e DL_FORMATS st of (fmt, st1) \<Rightarrow>
      case np_choice e DEVICE_OSES st1 of (os_name, st2) \<Rightarrow>
      case np_randint e 1 4 st2 of (v1, st3) \<Rightarrow>
      case np_randint e 0 10 st3 of (v2, st4) \<Rightarrow>
      case np_randint e 0 10 st4 of (v3, st5) \<Rightarrow>
        (let app_version = str_int v1 @ ''.'' @ str_int v2 @ ''.'' @ str_int v3 in
         ([(''format'', JStr fmt), (''device_os'', JStr os_name),
           (''app_version'', JStr app_version)], st5)))"

definition meta_review :: "env \<Rightarrow> rstate \<Rightarrow> jobject \<times> rstate" where
  "meta_review e st =
     (case np_choice e RATINGS st of (rating, st1) \<Rightarrow>
      case np_randint e 8 20 st1 of (nb_words, st2) \<Rightarrow>
      case fake_sentence_call e nb_words st2 of (review_text, st3) \<Rightarrow>
        ([(''rating'', JInt rating), (''review_text'', JStr review_text)], st3))"

definition meta_search :: "env \<Rightarrow> rstate \<Rightarrow> jobject \<times> rstate" where
  "meta_search e st =
     (case np_randint e 1 4 st of (k, st1) \<Rightarrow>
      case np_choice_noreplace e SEARCH_VOCAB (nat k) st1 of (terms, st2) \<Rightarrow>
      case np_poisson e st2 of (x, st3) \<Rightarrow>
        (let results_count = np_clip x 0 500 in
         ([(''search_terms'', JStrs terms), (''results_count'', JInt results_count)], st3)))"

definition meta_obj_of :: "env \<Rightarrow> string \<Rightarrow> rstate \<Rightarrow> jobject \<times> rstate" where
  "meta_obj_of e et st =
     (if et = ''read_online'' then meta_read_online e st
      else if et = ''download'' then meta_download e st
      else if et = ''review'' then meta_review e st
      else meta_search e st)"

text \<open>One pass of the inner loop: the row appended and the cursor for the next pass.\<close>

definition emit_event ::
  "env \<Rightarrow> string \<Rightarrow> int \<Rightarrow> string \<Rightarrow> int \<Rightarrow> rstate
     \<Rightarrow> (error + (row \<times> int \<times> rstate)) option" where
  "emit_event e session_uuid uid et current_ts st =
     (case uuid4 e st of (eid, st1) \<Rightarrow>
        and_then (draw_zipf_id e (BOOK_POOL_SIZE e) (135 / 100) (BOOK_ID_MAP e) st1)
          (\<lambda>(bid, st2).
             case meta_obj_of e et st2 of (meta_obj, st3) \<Rightarrow>
             case np_randint e 15 1801 st3 of (gap, st4) \<Rightarrow>
               (let advanced = current_ts + gap * 1000000;
                    next_ts = (if advanced > NOW e then NOW e else advanced)
                in Some (Inr (\<lparr>event_id = eid,
                               event_timestamp = second_of current_ts,
                               event_type = et,
                               user_id = uid,
                               book_id = bid,
                               session_id = session_uuid,
                               event_metadata = json_dumps meta_obj\<rparr>,
                             next_ts, st4)))))"

fun session_events ::
  "env \<Rightarrow> string \<Rightarrow> int \<Rightarrow> string list \<Rightarrow> int \<Rightarrow> rstate
     \<Rightarrow> (error + (row list \<times> rstate)) option" where
  "session_events e session_uuid uid [] current_ts st = Some (Inr ([], st))"
| "session_events e session_uuid uid (et # etypes) current_ts st =
     and_then (emit_event e session_uuid uid et current_ts st)
       (\<lambda>(r, next_ts, st').
          and_then (session_events e session_uuid uid etypes next_ts st')
            (\<lambda>(rs, st''). Some (Inr (r # rs, st''))))"

text \<open>One pass of the outer loop, for a session of \<open>slen\<close> events.\<close>

definition gen_session :: "env \<Rightarrow> int \<Rightarrow> rstate \<Rightarrow> (error + (row list \<times> rstate)) option" where
  "gen_session e slen st =
     (case uuid4 e st of (session_uuid, st1) \<Rightarrow>
        and_then (draw_zipf_id e (USER_POOL_SIZE e) (125 / 100) (USER_ID_MAP e) st1)
          (\<lambda>(uid, st2).
             case rand_ts_last_two_years e st2 of (current_ts, st3) \<Rightarrow>
             case np_choice_size e EVENT_TYPES (nat slen) st3 of (etypes, st4) \<Rightarrow>
               session_events e session_uuid uid etypes current_ts st4))"

fun gen_sessions :: "env \<Rightarrow> int list \<Rightarrow> rstate \<Rightarrow> (error + (row list \<times> rstate)) option" where
  "gen_sessions e [] st = Some (Inr ([], st))"
| "gen_sessions e (slen # sess_lengths) st =
     and_then (gen_session e slen st)
       (\<lambda>(rs, st').
          and_then (gen_sessions e sess_lengths st')
            (\<lambda>(rss, st''). Some (Inr (rs @ rss, st''))))"

text \<open>\<open>df.iloc[:n]\<close>: a negative bound counts from the end of the frame.\<close>

definition iloc_upto :: "'a list \<Rightarrow> int \<Rightarrow> 'a list" where
  "iloc_upto df n = (if 0 \<le> n then take (nat n) df else take (nat (int (length df) + n)) df)"

definition generate_chunk :: "env \<Rightarrow> int \<Rightarrow> rstate \<Rightarrow> (error + (row list \<times> rstate)) option" where
  "generate_chunk e n_events st =
     (case draw_session_lengths e n_events GEOM_P MAX_SESSION_LEN st of
        None \<Rightarrow> None
      | Some ((sess_lengths, _), st1) \<Rightarrow>
          and_then (gen_sessions e sess_lengths st1)
            (\<lambda>(df, st2).
               Some (Inr (if int (length df) > n_events then iloc_upto df n_events else df, st2))))"

section \<open>Writing a frame out\<close>

text \<open>
  \<open>strftime("%Y-%m-%dT%H:%M:%SZ")\<close> of the UTC instant \<open>ts\<close> seconds after the epoch, by
  the usual computation of the civil date from the day number (for the years 1000 to
  9999 the year has four digits).  \<open>df.to_csv\<close> writes one line per row, the fields
  separated by commas; a field that contains a comma, a quote or a line break is put
  between quotes with its quotes doubled.  Characters are bytes, so the length of the
  text is the size of the file.
\<close>

fun dec_pad :: "nat \<Rightarrow> int \<Rightarrow> string" where
  "dec_pad 0 x = []"
| "dec_pad (Suc n) x = dec_pad n (x div 10) @ [digit_char (nat (x mod 10))]"

definition civil_from_days :: "int \<Rightarrow> int \<times> int \<times> int" where
  "civil_from_days z =
     (let z1 = z + 719468;
          era = z1 div 146097;
          doe = z1 - era * 146097;
          yoe = (doe - doe div 1460 + doe div 36524 - doe div 146096) div 365;
          doy = doe - (365 * yoe + yoe div 4 - yoe div 100);
          mp = (5 * doy + 2) div 153;
          d = doy - (153 * mp + 2) div 5 + 1;
          m = (if mp < 10 then mp + 3 else mp - 9);
          y = yoe + era * 400 + (if m \<le> 2 then 1 else 0)
      in (y, m, d))"

definition strftime :: "int \<Rightarrow> string" where
  "strftime ts =
     (case civil_from_days (ts div 86400) of
        (y, m, d) \<Rightarrow>
          (let s = ts mod 86400
           in dec_pad 4 y @ ''-'' @ dec_pad 2 m @ ''-'' @ dec_pad 2 d @ ''T'' @
              dec_pad 2 (s div 3600) @ '':'' @ dec_pad 2 (s mod 3600 div 60) @ '':'' @
              dec_pad 2 (s mod 60) @ ''Z''))"

definition csv_field :: "string \<Rightarrow> string" where
  "csv_field s =
     (if \<exists>c\<in>set s. c \<in> {CHR '','', CHR 0x22, CHR 0x0A, CHR 0x0D}
      then CHR 0x22 # concat (map (\<lambda>c. if c = CHR 0x22 then [CHR 0x22, CHR 0x22] else [c]) s)
             @ [CHR 0x22]
      else s)"

definition csv_header :: string where
  "csv_header =
     ''event_id,event_timestamp,event_type,user_id,book_id,session_id,event_metadata''
       @ [CHR 0x0A]"

definition csv_row :: "row \<Rightarrow> string" where
  "csv_row r =
     join '','' (map csv_field
        [event_id r, strftime (event_timestamp r), event_type r, str_int (user_id r),
         str_int (book_id r), session_id r, event_metadata r]) @ [CHR 0x0A]"

definition to_csv :: "bool \<Rightarrow> row list \<Rightarrow> string" where
  "to_csv header df = (if header then csv_header else []) @ concat (map csv_row df)"

section \<open>The size-bounded writer\<close>

text \<open>
  Python's true division raises on a zero divisor; \<open>int\<close> of a float truncates towards
  zero.  Floats are exact rationals here.  The output file is its text, or \<open>None\<close> while
  it does not exist: \<open>main\<close> removes a file left by an earlier run before it starts, mode
  \<open>"w"\<close> replaces the text and mode \<open>"a"\<close> extends it, and \<open>os.path.getsize\<close> raises
  when there is no file.  The streaming loop has no bound of its own.
\<close>

definition py_truediv :: "int \<Rightarrow> int \<Rightarrow> error + rat" where
  "py_truediv a b = (if b = 0 then Inl ZeroDivisionError else Inr (of_int a / of_int b))"

definition py_int :: "rat \<Rightarrow> int" where
  "py_int q = (if 0 \<le> q then \<lfloor>q\<rfloor> else \<lceil>q\<rceil>)"

definition estimate_avg_row_bytes ::
  "env \<Rightarrow> int \<Rightarrow> rstate \<Rightarrow> (error + (rat \<times> rstate)) option" where
  "estimate_avg_row_bytes e n_sample st =
     and_then (generate_chunk e n_sample st)
       (\<lambda>(df, st').
          (let data = to_csv False df
           in case py_truediv (int (length data)) (max 1 (int (length df))) of
                Inl err \<Rightarrow> Some (Inl err)
              | Inr avg \<Rightarrow> Some (Inr (avg, st'))))"

partial_function (option) stream_loop ::
  "env \<Rightarrow> int \<Rightarrow> int \<Rightarrow> bool \<Rightarrow> string option \<Rightarrow> rstate
     \<Rightarrow> (error + (int \<times> string option \<times> rstate)) option" where
  "stream_loop e target_rows rows_written first_write out st =
     (if rows_written < target_rows
      then (let remaining = target_rows - rows_written;
                n_chunk = min (DEFAULT_CHUNK_ROWS e) remaining
            in case generate_chunk e n_chunk st of
                 None \<Rightarrow> None
               | Some (Inl err) \<Rightarrow> Some (Inl err)
               | Some (Inr (df, st')) \<Rightarrow>
                   stream_loop e target_rows (rows_written + int (length df)) False
                     (Some ((if first_write then [] else (case out of None \<Rightarrow> [] | Some old \<Rightarrow> old))
                            @ to_csv first_write df))
                     st')
      else Some (Inr (rows_written, out, st)))"

declare stream_loop.simps [code]

record report =
  rows_written :: int
  final_size :: int
  out_file :: string

text \<open>
  The part of \<open>main\<close> after the streaming loop: measure the file and, when it is
  short of the budget, append one corrective chunk.
\<close>

definition top_up ::
  "env \<Rightarrow> rat \<Rightarrow> int \<Rightarrow> string option \<Rightarrow> rstate \<Rightarrow> (error + (report \<times> rstate)) option" where
  "top_up e avg_row_bytes written out st =
     (case out of
        None \<Rightarrow> Some (Inl FileNotFoundError)
      | Some text \<Rightarrow>
          (let size = int (length text)
           in if size < TARGET_BYTES e
              then (let extra_rows = py_int (of_int (TARGET_BYTES e - size) / avg_row_bytes) + 1
                    in if extra_rows > 0
                       then and_then (generate_chunk e extra_rows st)
                              (\<lambda>(df, st').
                                 Some (Inr (\<lparr>rows_written = written + int (length df),
                                               final_size = int (length (text @ to_csv False df)),
                                               out_file = text @ to_csv False df\<rparr>, st')))
                       else Some (Inr (\<lparr>rows_written = written, final_size = size,
                                         out_file = text\<rparr>, st)))
              else Some (Inr (\<lparr>rows_written = written, final_size = size,
                                out_file = text\<rparr>, st))))"

definition main :: "env \<Rightarrow> rstate \<Rightarrow> (error + (report \<times> rstate)) option" where
  "main e st =
     and_then (estimate_avg_row_bytes e (SAMPLE_ROWS e) st)
       (\<lambda>(avg_row_bytes, st1).
          if avg_row_bytes = 0 then Some (Inl ZeroDivisionError)
          else
            (let target_rows = py_int (of_int (TARGET_BYTES e) / avg_row_bytes)
             in and_then (stream_loop e target_rows 0 True None st1)
                  (\<lambda>(written, out, st2). top_up e avg_row_bytes written out st2)))"

section \<open>Auxiliary notions for the statements\<close>

text \<open>
  The token that the \<open>k\<close>-th call of \<open>uuid.uuid4\<close> returns, and the condition that,
  from every position of the numpy stream, some later rank does not exceed \<open>max_id\<close>
  (so that a rejection loop started anywhere is left).
\<close>

definition uuid_at :: "env \<Rightarrow> nat \<Rightarrow> string" where
  "uuid_at e k = str_uuid (uuid_int (os_urandom e k))"

definition ranks_recur :: "env \<Rightarrow> int \<Rightarrow> bool" where
  "ranks_recur e max_id = (\<forall>p. \<exists>k. 1 + \<bar>np_raw e (p + k)\<bar> \<le> max_id)"

text \<open>
  A mapping is the permutation of a pool when it lists every identifier from 1 to the pool
  size exactly once.
\<close>

definition is_pool_permutation :: "int list \<Rightarrow> int \<Rightarrow> bool" where
  "is_pool_permutation m n = (distinct m \<and> set m = {1..n})"

text \<open>
  A frame is session-coherent when any two of its rows that carry the same session
  token carry the same user, and the later row's timestamp is not earlier.
\<close>

definition session_coherent :: "row list \<Rightarrow> bool" where
  "session_coherent df =
     (\<forall>i j. i < j \<and> j < length df \<and> session_id (df ! i) = session_id (df ! j) \<longrightarrow>
        user_id (df ! i) = user_id (df ! j) \<and>
        event_timestamp (df ! i) \<le> event_timestamp (df ! j))"


definition file_of :: "(error + (report \<times> rstate)) option \<Rightarrow> string option" where
  "file_of res = (case res of Some (Inr (rep, st)) \<Rightarrow> Some (out_file rep) | _ \<Rightarrow> None)"

section \<open>Worked inputs\<close>

text \<open>
  A small configuration for running the definitions: three users, two books, a clock
  half a second past a whole second, tokens from a counter, and one fixed sentence.
  The numpy stream is the argument.
\<close>

definition example_env :: "(nat \<Rightarrow> int) \<Rightarrow> env" where
  "example_env raw =
     \<lparr>np_raw = raw, os_urandom = (\<lambda>k. int k), fake_sentence = (\<lambda>k n. ''Lorem ipsum dolor.''),
      NOW = 1700000000500000, USER_POOL_SIZE = 3, BOOK_POOL_SIZE = 2,
      USER_ID_MAP = [2, 3, 1], BOOK_ID_MAP = [2, 1],
      TARGET_BYTES = 880, DEFAULT_CHUNK_ROWS = 4, SAMPLE_ROWS = 1\<rparr>"

definition initial_state :: rstate where
  "initial_state = \<lparr>np_pos = 0, uuid_pos = 0, fake_pos = 0\<rparr>"

text \<open>
  A numpy stream that plans three sessions of 2, 2 and 3 events for a request of five
  rows, rejects one rank for the first user and one for the first book, starts the
  second session at the last second of the window, and is zero from position 34 on.
  The frame below is what the generator returns on it.
\<close>

definition example_stream :: "nat \<Rightarrow> int" where
  "example_stream n =
     (if n < 34
      then [1, 1, 2, 5, 2, 1000, 2, 3, 9, 0, 3, 4, 100, 1, 1, 1, 0, 12, 0,
            0, 63072000, 1, 0, 0, 1, 0, 4, 7, 13, 20, 1, 45999, 1, 0] ! n
      else 0)"

definition example_chunk :: "row list" where
  "example_chunk =
     [\<lparr>event_id = ''00000000-0000-4000-8000-000000000001'',
       event_timestamp = 1636929000, event_type = ''review'', user_id = 1, book_id = 2,
       session_id = ''00000000-0000-4000-8000-000000000000'',
       event_metadata =
         json_dumps [(''rating'', JInt 4), (''review_text'', JStr ''Lorem ipsum dolor.'')]\<rparr>,
      \<lparr>event_id = ''00000000-0000-4000-8000-000000000002'',
       event_timestamp = 1636929115, event_type = ''search'', user_id = 1, book_id = 1,
       session_id = ''00000000-0000-4000-8000-000000000000'',
       event_metadata =
         json_dumps [(''search_terms'', JStrs [''sci-fi'', ''dystopian'']),
                     (''results_count'', JInt 12)]\<rparr>,
      \<lparr>event_id = ''00000000-0000-4000-8000-000000000004'',
       event_timestamp = 1700000000, event_type = ''download'', user_id = 2, book_id = 2,
       session_id = ''00000000-0000-4000-8000-000000000003'',
       event_metadata =
         json_dumps [(''format'', JStr ''pdf''), (''device_os'', JStr ''iOS''),
                     (''app_version'', JStr ''2.7.3'')]\<rparr>,
      \<lparr>event_id = ''00000000-0000-4000-8000-000000000005'',
       event_timestamp = 1700000000, event_type = ''read_online'', user_id = 2, book_id = 1,
       session_id = ''00000000-0000-4000-8000-000000000003'',
       event_metadata =
         json_dumps [(''reading_duration_minutes'', JInt 46),
                     (''platform'', JStr ''mobile_app'')]\<rparr>,
      \<lparr>event_id = ''00000000-0000-4000-8000-000000000007'',
       event_timestamp = 1636928000, event_type = ''read_online'', user_id = 2, book_id = 2,
       session_id = ''00000000-0000-4000-8000-000000000006'',
       event_metadata =
         json_dumps [(''reading_duration_minutes'', JInt 1),
                     (''platform'', JStr ''web_browser'')]\<rparr>]"



definition empty_pool_env :: env where
  "empty_pool_env = (example_env (\<lambda>n. 0))\<lparr>USER_POOL_SIZE := 0, USER_ID_MAP := []\<rparr>"

definition zero_chunk_env :: env where
  "zero_chunk_env = (example_env (\<lambda>n. 0))\<lparr>DEFAULT_CHUNK_ROWS := 0\<rparr>"

text \<open>
  Two runs with the same seed: the numpy stream, the sentences, the clock and every
  constant agree, and only the bytes that \<open>os.urandom\<close> hands to \<open>uuid4\<close> differ.  Each
  run writes the header and one row.
\<close>

definition first_run_env :: env where
  "first_run_env = (example_env (\<lambda>n. 0))\<lparr>TARGET_BYTES := 200\<rparr>"

definition second_run_env :: env where
  "second_run_env = first_run_env\<lparr>os_urandom := (\<lambda>k. int k + 16)\<rparr>"

definition first_run_row :: row where
  "first_run_row =
     \<lparr>event_id = ''00000000-0000-4000-8000-000000000003'',
      event_timestamp = 1636928000, event_type = ''read_online'', user_id = 2, book_id = 2,
      session_id = ''00000000-0000-4000-8000-000000000002'',
      event_metadata =
        json_dumps [(''reading_duration_minutes'', JInt 1), (''platform'', JStr ''web_browser'')]\<rparr>"

definition second_run_row :: row where
  "second_run_row =
     \<lparr>event_id = ''00000000-0000-4000-8000-000000000013'',
      event_timestamp = 1636928000, event_type = ''read_online'', user_id = 2, book_id = 2,
      session_id = ''00000000-0000-4000-8000-000000000012'',
      event_metadata =
        json_dumps [(''reading_duration_minutes'', JInt 1), (''platform'', JStr ''web_browser'')]\<rparr>"

section \<open>Properties of the identifier sampler\<close>

text \<open>The rank that the \<open>k\<close>-th call of \<open>np.random.zipf\<close> from state \<open>st\<close> returns.\<close>

definition zipf_rank :: "env \<Rightarrow> rstate \<Rightarrow> nat \<Rightarrow> int" where
  "zipf_rank e st k = 1 + \<bar>np_raw e (np_pos st + k)\<bar>"

lemma np_zipf_eq:
  "np_zipf e a st = (1 + \<bar>np_raw e (np_pos st)\<bar>, st\<lparr>np_pos := Suc (np_pos st)\<rparr>)"
  by (simp add: np_zipf_def np_next_def)

lemma zipf_loop_accept: "r \<le> max_id \<Longrightarrow> zipf_loop e max_id a r st = Some (r, st)"
  by (subst zipf_loop.simps) simp

lemma zipf_loop_reject:
  "max_id < r \<Longrightarrow>
   zipf_loop e max_id a r st =
     zipf_loop e max_id a (1 + \<bar>np_raw e (np_pos st)\<bar>) (st\<lparr>np_pos := Suc (np_pos st)\<rparr>)"
  by (subst zipf_loop.simps) (simp add: np_zipf_eq)

lemma zipf_loop_first:
  "\<forall>j<k. max_id < 1 + \<bar>np_raw e (np_pos st + j)\<bar> \<Longrightarrow>
   1 + \<bar>np_raw e (np_pos st + k)\<bar> \<le> max_id \<Longrightarrow>
   max_id < r \<Longrightarrow>
   zipf_loop e max_id a r st =
     Some (1 + \<bar>np_raw e (np_pos st + k)\<bar>, st\<lparr>np_pos := Suc (np_pos st + k)\<rparr>)"
proof (induction k arbitrary: r st)
  case 0
  then show ?case
    by (simp add: zipf_loop_reject zipf_loop_accept)
next
  case (Suc k)
  let ?st = "st\<lparr>np_pos := Suc (np_pos st)\<rparr>"
  have rej: "max_id < 1 + \<bar>np_raw e (np_pos st)\<bar>"
    using Suc.prems(1) by (metis add.right_neutral zero_less_Suc)
  have "\<forall>j<k. max_id < 1 + \<bar>np_raw e (np_pos ?st + j)\<bar>"
    using Suc.prems(1) by (auto dest: spec [where x = "Suc _"])
  moreover have "1 + \<bar>np_raw e (np_pos ?st + k)\<bar> \<le> max_id"
    using Suc.prems(2) by simp
  ultimately have "zipf_loop e max_id a (1 + \<bar>np_raw e (np_pos st)\<bar>) ?st =
     Some (1 + \<bar>np_raw e (np_pos ?st + k)\<bar>, ?st\<lparr>np_pos := Suc (np_pos ?st + k)\<rparr>)"
    using rej by (rule Suc.IH)
  then show ?case
    using Suc.prems(3) by (simp add: zipf_loop_reject)
qed

lemma zipf_loop_sound:
  "zipf_loop e max_id a r st = Some y \<Longrightarrow>
   fst y \<le> max_id \<and>
   ((fst y = r \<and> snd y = st) \<or>
    (max_id < r \<and> (\<exists>k. fst y = 1 + \<bar>np_raw e (np_pos st + k)\<bar> \<and>
          snd y = st\<lparr>np_pos := Suc (np_pos st + k)\<rparr> \<and>
          (\<forall>j<k. max_id < 1 + \<bar>np_raw e (np_pos st + j)\<bar>))))"
proof (induction rule: zipf_loop.raw_induct [rotated 1, consumes 1])
  case (1 zl e max_id a r st y)
  show ?case
  proof (cases "max_id < r")
    case False
    with 1(2) show ?thesis by auto
  next
    case True
    let ?r = "1 + \<bar>np_raw e (np_pos st)\<bar>"
    let ?st = "st\<lparr>np_pos := Suc (np_pos st)\<rparr>"
    from True 1(2) have call: "zl e max_id a ?r ?st = Some y"
      by (simp add: np_zipf_eq)
    from 1(1) [OF call] have le: "fst y \<le> max_id"
      and alt: "(fst y = ?r \<and> snd y = ?st) \<or>
        (max_id < ?r \<and> (\<exists>k. fst y = 1 + \<bar>np_raw e (np_pos ?st + k)\<bar> \<and>
          snd y = ?st\<lparr>np_pos := Suc (np_pos ?st + k)\<rparr> \<and>
          (\<forall>j<k. max_id < 1 + \<bar>np_raw e (np_pos ?st + j)\<bar>)))"
      by blast+
    from alt show ?thesis
    proof
      assume "fst y = ?r \<and> snd y = ?st"
      then have "fst y = 1 + \<bar>np_raw e (np_pos st + 0)\<bar> \<and>
          snd y = st\<lparr>np_pos := Suc (np_pos st + 0)\<rparr> \<and>
          (\<forall>j<(0::nat). max_id < 1 + \<bar>np_raw e (np_pos st + j)\<bar>)"
        by simp
      then show ?thesis using le True by blast
    next
      assume "max_id < ?r \<and> (\<exists>k. fst y = 1 + \<bar>np_raw e (np_pos ?st + k)\<bar> \<and>
          snd y = ?st\<lparr>np_pos := Suc (np_pos ?st + k)\<rparr> \<and>
          (\<forall>j<k. max_id < 1 + \<bar>np_raw e (np_pos ?st + j)\<bar>))"
      then obtain k where r0: "max_id < ?r"
        and k: "fst y = 1 + \<bar>np_raw e (np_pos ?st + k)\<bar>"
          "snd y = ?st\<lparr>np_pos := Suc (np_pos ?st + k)\<rparr>"
          "\<forall>j<k. max_id < 1 + \<bar>np_raw e (np_pos ?st + j)\<bar>"
        by blast
      have "\<forall>j<Suc k. max_id < 1 + \<bar>np_raw e (np_pos st + j)\<bar>"
      proof (intro allI impI)
        fix j assume "j < Suc k"
        show "max_id < 1 + \<bar>np_raw e (np_pos st + j)\<bar>"
        proof (cases j)
          case 0 then show ?thesis using r0 by simp
        next
          case (Suc i)
          then have "i < k" using \<open>j < Suc k\<close> by simp
          with k(3) Suc show ?thesis by simp
        qed
      qed
      moreover have "fst y = 1 + \<bar>np_raw e (np_pos st + Suc k)\<bar>"
        "snd y = st\<lparr>np_pos := Suc (np_pos st + Suc k)\<rparr>"
        using k by simp_all
      ultimately show ?thesis using le True by blast
    qed
  qed
qed


lemma draw_zipf_id_at:
  assumes rej: "\<forall>j<k. max_id < zipf_rank e st j"
    and acc: "zipf_rank e st k \<le> max_id"
  shows "draw_zipf_id e max_id a mapping st =
     (case getitem mapping (zipf_rank e st k - 1) of
        Inl err \<Rightarrow> Some (Inl err)
      | Inr v \<Rightarrow> Some (Inr (v, st\<lparr>np_pos := Suc (np_pos st + k)\<rparr>)))"
proof (cases k)
  case 0
  with acc show ?thesis
    by (simp add: draw_zipf_id_def np_zipf_eq zipf_rank_def zipf_loop_accept split: sum.splits)
next
  case (Suc i)
  let ?st = "st\<lparr>np_pos := Suc (np_pos st)\<rparr>"
  have r0: "max_id < 1 + \<bar>np_raw e (np_pos st)\<bar>"
    using rej Suc by (auto simp: zipf_rank_def dest: spec [where x = 0])
  have "\<forall>j<i. max_id < 1 + \<bar>np_raw e (np_pos ?st + j)\<bar>"
    using rej Suc by (auto simp: zipf_rank_def dest: spec [where x = "Suc _"])
  moreover have "1 + \<bar>np_raw e (np_pos ?st + i)\<bar> \<le> max_id"
    using acc Suc by (simp add: zipf_rank_def)
  ultimately have "zipf_loop e max_id a (1 + \<bar>np_raw e (np_pos st)\<bar>) ?st =
     Some (1 + \<bar>np_raw e (np_pos ?st + i)\<bar>, ?st\<lparr>np_pos := Suc (np_pos ?st + i)\<rparr>)"
    using r0 by (rule zipf_loop_first)
  then show ?thesis
    using Suc by (simp add: draw_zipf_id_def np_zipf_eq zipf_rank_def split: sum.splits)
qed

lemma draw_zipf_id_never:
  assumes rej: "\<forall>k. max_id < zipf_rank e st k"
  shows "draw_zipf_id e max_id a mapping st = None"
proof -
  let ?r = "1 + \<bar>np_raw e (np_pos st)\<bar>"
  let ?st = "st\<lparr>np_pos := Suc (np_pos st)\<rparr>"
  have "zipf_loop e max_id a ?r ?st = None"
  proof (rule ccontr)
    assume "zipf_loop e max_id a ?r ?st \<noteq> None"
    then obtain y where y: "zipf_loop e max_id a ?r ?st = Some y" by blast
    from zipf_loop_sound [OF y] have le: "fst y \<le> max_id"
      and alt: "fst y = ?r \<or> (\<exists>k. fst y = 1 + \<bar>np_raw e (np_pos ?st + k)\<bar>)"
      by blast+
    from alt show False
    proof
      assume "fst y = ?r"
      with le rej [rule_format, of 0] show False by (simp add: zipf_rank_def)
    next
      assume "\<exists>k. fst y = 1 + \<bar>np_raw e (np_pos ?st + k)\<bar>"
      then obtain k where "fst y = 1 + \<bar>np_raw e (np_pos ?st + k)\<bar>" ..
      with le rej [rule_format, of "Suc k"] show False by (simp add: zipf_rank_def)
    qed
  qed
  then show ?thesis by (simp add: draw_zipf_id_def np_zipf_eq)
qed

lemma least_accept:
  assumes "\<exists>k. zipf_rank e st k \<le> max_id"
  obtains k where "\<forall>j<k. max_id < zipf_rank e st j" and "zipf_rank e st k \<le> max_id"
proof -
  let ?k = "LEAST k. zipf_rank e st k \<le> max_id"
  have "zipf_rank e st ?k \<le> max_id" using assms by (rule LeastI_ex)
  moreover have "\<forall>j<?k. max_id < zipf_rank e st j"
    using not_less_Least [of _ "\<lambda>k. zipf_rank e st k \<le> max_id"] by (auto simp: not_le)
  ultimately show thesis using that by blast
qed


text \<open>
  C8 (amended).  The rejection loop has no cap and no configuration error.  When the
  first \<open>k\<close> ranks drawn exceed \<open>max_id\<close> and the next one does not, the sampler
  returns after exactly \<open>k + 1\<close> draws, with \<open>mapping[rank - 1]\<close> (or the index error of
  a mapping that is too short), whatever \<open>k\<close> is; when every rank drawn exceeds
  \<open>max_id\<close> it never returns.
\<close>

theorem draw_zipf_id_uncapped:
  "((\<forall>j<k. max_id < zipf_rank e st j) \<and> zipf_rank e st k \<le> max_id \<longrightarrow>
      draw_zipf_id e max_id a mapping st =
        (case getitem mapping (zipf_rank e st k - 1) of
           Inl err \<Rightarrow> Some (Inl err)
         | Inr v \<Rightarrow> Some (Inr (v, st\<lparr>np_pos := Suc (np_pos st + k)\<rparr>)))) \<and>
   ((\<forall>k. max_id < zipf_rank e st k) \<longrightarrow> draw_zipf_id e max_id a mapping st = None)"
  using draw_zipf_id_at [of k max_id e st a mapping] draw_zipf_id_never [of max_id e st a mapping]
  by blast

theorem draw_zipf_id_uncapped_witness:
  "draw_zipf_id (example_env (\<lambda>n. if n < 2 then 7 else 1)) 3 (5 / 4) [2, 3, 1] initial_state
     = Some (Inr (3, \<lparr>np_pos = 3, uuid_pos = 0, fake_pos = 0\<rparr>)) \<and>
   draw_zipf_id (example_env (\<lambda>n. 7)) 3 (5 / 4) [2, 3, 1] initial_state = None"
proof -
  let ?e = "example_env (\<lambda>n. if n < 2 then 7 else 1)"
  have rej: "\<forall>j<2. 3 < zipf_rank ?e initial_state j"
    by (simp add: zipf_rank_def example_env_def initial_state_def)
  have acc: "zipf_rank ?e initial_state 2 \<le> 3"
    by (simp add: zipf_rank_def example_env_def initial_state_def)
  have all: "\<forall>k. 3 < zipf_rank (example_env (\<lambda>n. 7)) initial_state k"
    by (simp add: zipf_rank_def example_env_def)
  from rej acc all
    draw_zipf_id_uncapped [of 2 3 ?e initial_state "5 / 4" "[2, 3, 1]"]
    draw_zipf_id_uncapped [of 0 3 "example_env (\<lambda>n. 7)" initial_state "5 / 4" "[2, 3, 1]"]
  show ?thesis
    by (simp add: zipf_rank_def example_env_def initial_state_def getitem_def)
qed

text \<open>
  C8 as stated fails: on a stream whose ranks all exceed the pool size the sampler
  neither returns an identifier nor reports an error.
\<close>

theorem draw_zipf_id_hangs:
  "draw_zipf_id (example_env (\<lambda>n. 7)) 3 (5 / 4) [2, 3, 1] initial_state = None"
  by (rule draw_zipf_id_never) (simp add: zipf_rank_def example_env_def)

section \<open>Properties of session planning\<close>

lemma np_geometric_eq:
  "np_geometric e p st = (1 + \<bar>np_raw e (np_pos st)\<bar>, st\<lparr>np_pos := Suc (np_pos st)\<rparr>)"
  by (simp add: np_geometric_def np_next_def)

lemma session_loop_done:
  "n_target \<le> tot \<Longrightarrow> session_loop e n_target p max_len lengths tot st = Some ((lengths, tot), st)"
  by (subst session_loop.simps) simp

lemma session_loop_step:
  "tot < n_target \<Longrightarrow>
   session_loop e n_target p max_len lengths tot st =
     session_loop e n_target p max_len
       (lengths @ [min (1 + \<bar>np_raw e (np_pos st)\<bar>) max_len])
       (tot + min (1 + \<bar>np_raw e (np_pos st)\<bar>) max_len)
       (st\<lparr>np_pos := Suc (np_pos st)\<rparr>)"
  by (subst session_loop.simps) (simp add: np_geometric_eq min_def Let_def)

lemma session_loop_returns:
  assumes "1 \<le> max_len"
  shows "\<exists>lens st'. session_loop e n_target p max_len lengths tot st
            = Some ((lengths @ lens, tot + sum_list lens), st') \<and>
         (\<forall>l\<in>set lens. 1 \<le> l \<and> l \<le> max_len) \<and>
         n_target \<le> tot + sum_list lens \<and>
         (if tot < n_target then lens \<noteq> [] \<and> tot + sum_list (butlast lens) < n_target
          else lens = []) \<and>
         st' = st\<lparr>np_pos := np_pos st + length lens\<rparr>"
proof (induction "nat (n_target - tot)" arbitrary: lengths tot st rule: less_induct)
  case less
  show ?case
  proof (cases "tot < n_target")
    case False
    then show ?thesis by (simp add: session_loop_done)
  next
    case True
    let ?l = "min (1 + \<bar>np_raw e (np_pos st)\<bar>) max_len"
    let ?st = "st\<lparr>np_pos := Suc (np_pos st)\<rparr>"
    have l: "1 \<le> ?l" "?l \<le> max_len" using assms by simp_all
    then have "nat (n_target - (tot + ?l)) < nat (n_target - tot)" using True by simp
    from less [OF this, of "lengths @ [?l]" ?st]
    obtain lens st' where
      run: "session_loop e n_target p max_len (lengths @ [?l]) (tot + ?l) ?st
              = Some (((lengths @ [?l]) @ lens, tot + ?l + sum_list lens), st')"
      and rng: "\<forall>l\<in>set lens. 1 \<le> l \<and> l \<le> max_len"
      and tgt: "n_target \<le> tot + ?l + sum_list lens"
      and lst: "if tot + ?l < n_target
                then lens \<noteq> [] \<and> tot + ?l + sum_list (butlast lens) < n_target
                else lens = []"
      and st': "st' = ?st\<lparr>np_pos := np_pos ?st + length lens\<rparr>"
      by blast
    have "session_loop e n_target p max_len lengths tot st
            = Some ((lengths @ (?l # lens), tot + sum_list (?l # lens)), st')"
      using run True by (simp add: session_loop_step add.assoc)
    moreover have "\<forall>l\<in>set (?l # lens). 1 \<le> l \<and> l \<le> max_len"
      using rng l by simp
    moreover have "n_target \<le> tot + sum_list (?l # lens)"
      using tgt by (simp add: add.assoc)
    moreover have "?l # lens \<noteq> [] \<and> tot + sum_list (butlast (?l # lens)) < n_target"
      using lst True by (auto simp: add.assoc split: if_splits)
    moreover have "st' = st\<lparr>np_pos := np_pos st + length (?l # lens)\<rparr>"
      using st' by simp
    ultimately show ?thesis using True by (intro exI [of _ "?l # lens"] exI [of _ st']) simp
  qed
qed

section \<open>Properties of the primitives\<close>

lemma and_then_Inr:
  "and_then m f = Some (Inr y) \<longleftrightarrow> (\<exists>x. m = Some (Inr x) \<and> f x = Some (Inr y))"
  by (auto simp: and_then_def split: option.splits sum.splits)

lemma and_then_simps [simp]:
  "and_then None f = None"
  "and_then (Some (Inl err)) f = Some (Inl err)"
  "and_then (Some (Inr x)) f = f x"
  by (simp_all add: and_then_def)

lemma np_randint_eq:
  "np_randint e low high st =
     (low + np_raw e (np_pos st) mod (high - low), st\<lparr>np_pos := Suc (np_pos st)\<rparr>)"
  by (simp add: np_randint_def np_next_def)

lemma np_randint_range:
  "low < high \<Longrightarrow> low \<le> fst (np_randint e low high st) \<and> fst (np_randint e low high st) < high"
proof -
  assume "low < high"
  then have pos: "0 < high - low" by simp
  have "np_raw e (np_pos st) mod (high - low) < high - low"
    using pos by (rule pos_mod_bound)
  moreover have "0 \<le> np_raw e (np_pos st) mod (high - low)"
    using pos by (rule pos_mod_sign)
  ultimately show ?thesis by (simp add: np_randint_eq)
qed

lemma np_choice_eq:
  "np_choice e arr st =
     (arr ! nat (np_raw e (np_pos st) mod int (length arr)), st\<lparr>np_pos := Suc (np_pos st)\<rparr>)"
  by (simp add: np_choice_def np_next_def)

lemma choice_index: "arr \<noteq> [] \<Longrightarrow> nat (x mod int (length arr)) < length arr"
proof -
  assume "arr \<noteq> []"
  then have pos: "0 < int (length arr)" by simp
  have "x mod int (length arr) < int (length arr)" using pos by (rule pos_mod_bound)
  moreover have "0 \<le> x mod int (length arr)" using pos by (rule pos_mod_sign)
  ultimately show ?thesis by linarith
qed

lemma np_choice_mem: "arr \<noteq> [] \<Longrightarrow> fst (np_choice e arr st) \<in> set arr"
  by (simp add: np_choice_eq choice_index)

lemma np_choice_size_snd:
  "snd (np_choice_size e arr n st) = st\<lparr>np_pos := np_pos st + n\<rparr>"
  by (induction n arbitrary: st) (simp_all add: np_choice_eq split_beta)

lemma np_choice_size_length: "length (fst (np_choice_size e arr n st)) = n"
  by (induction n arbitrary: st) (simp_all add: np_choice_eq split_beta)

lemma np_choice_size_mem:
  "arr \<noteq> [] \<Longrightarrow> set (fst (np_choice_size e arr n st)) \<subseteq> set arr"
proof (induction n arbitrary: st)
  case 0
  then show ?case by simp
next
  case (Suc n)
  from Suc.prems have "arr ! nat (np_raw e (np_pos st) mod int (length arr)) \<in> set arr"
    by (simp add: choice_index)
  with Suc show ?case by (simp add: np_choice_eq split_beta)
qed

lemma np_choice_noreplace_snd:
  "snd (np_choice_noreplace e arr n st) = st\<lparr>np_pos := np_pos st + n\<rparr>"
  by (induction n arbitrary: st arr) (simp_all add: np_next_def Let_def split_beta)

lemma np_gamma_eq:
  "np_gamma e st = ((of_int \<bar>np_raw e (np_pos st)\<bar> + 1) / 1000, st\<lparr>np_pos := Suc (np_pos st)\<rparr>)"
  by (simp add: np_gamma_def np_next_def)

lemma np_poisson_eq:
  "np_poisson e st = (\<bar>np_raw e (np_pos st)\<bar>, st\<lparr>np_pos := Suc (np_pos st)\<rparr>)"
  by (simp add: np_poisson_def np_next_def)

lemma meta_obj_of_uuid_pos: "uuid_pos (snd (meta_obj_of e et st)) = uuid_pos st"
  by (simp add: meta_obj_of_def meta_read_online_def meta_download_def meta_review_def
      meta_search_def np_gamma_eq np_choice_eq np_randint_eq np_poisson_eq Let_def
      fake_sentence_call_def split_beta np_choice_noreplace_snd)

section \<open>Properties of the event loop\<close>

lemma uuid4_eq: "uuid4 e st = (uuid_at e (uuid_pos st), st\<lparr>uuid_pos := Suc (uuid_pos st)\<rparr>)"
  by (simp add: uuid4_def uuid_at_def)

lemma getitem_Inr: "getitem xs i = Inr v \<Longrightarrow> v \<in> set xs"
  by (auto simp: getitem_def split: if_splits)

lemma getitem_in_range: "0 \<le> i \<Longrightarrow> i < int (length xs) \<Longrightarrow> getitem xs i = Inr (xs ! nat i)"
  by (simp add: getitem_def)

lemma draw_zipf_id_Inr:
  assumes "draw_zipf_id e max_id a mapping st = Some (Inr (v, st'))"
  shows "\<exists>k. (\<forall>j<k. max_id < zipf_rank e st j) \<and> zipf_rank e st k \<le> max_id \<and>
             getitem mapping (zipf_rank e st k - 1) = Inr v \<and>
             st' = st\<lparr>np_pos := Suc (np_pos st + k)\<rparr>"
proof -
  have "\<exists>k. zipf_rank e st k \<le> max_id"
  proof (rule ccontr)
    assume "\<not> (\<exists>k. zipf_rank e st k \<le> max_id)"
    then have "\<forall>k. max_id < zipf_rank e st k" by (simp add: not_le)
    then have "draw_zipf_id e max_id a mapping st = None" by (rule draw_zipf_id_never)
    with assms show False by simp
  qed
  then obtain k where rej: "\<forall>j<k. max_id < zipf_rank e st j" and acc: "zipf_rank e st k \<le> max_id"
    by (rule least_accept)
  from draw_zipf_id_at [OF rej acc, of a mapping] assms
  have "getitem mapping (zipf_rank e st k - 1) = Inr v \<and> st' = st\<lparr>np_pos := Suc (np_pos st + k)\<rparr>"
    by (auto split: sum.splits)
  with rej acc show ?thesis by blast
qed

lemma draw_zipf_id_returns:
  assumes rec: "ranks_recur e max_id" and len: "max_id \<le> int (length mapping)"
  shows "\<exists>v st'. draw_zipf_id e max_id a mapping st = Some (Inr (v, st'))"
proof -
  from rec have "\<exists>k. zipf_rank e st k \<le> max_id"
    by (simp add: ranks_recur_def zipf_rank_def)
  then obtain k where rej: "\<forall>j<k. max_id < zipf_rank e st j" and acc: "zipf_rank e st k \<le> max_id"
    by (rule least_accept)
  have "1 \<le> zipf_rank e st k" by (simp add: zipf_rank_def)
  with acc len have "getitem mapping (zipf_rank e st k - 1) = Inr (mapping ! nat (zipf_rank e st k - 1))"
    by (intro getitem_in_range) simp_all
  with draw_zipf_id_at [OF rej acc, of a mapping] show ?thesis by simp
qed

lemma emit_event_Inr:
  assumes "emit_event e sid uid et cur st = Some (Inr (r, cur', st'))"
  shows "\<exists>bid st2 gap.
     draw_zipf_id e (BOOK_POOL_SIZE e) (135 / 100) (BOOK_ID_MAP e)
         (st\<lparr>uuid_pos := Suc (uuid_pos st)\<rparr>) = Some (Inr (bid, st2)) \<and>
     r = \<lparr>event_id = uuid_at e (uuid_pos st), event_timestamp = second_of cur,
          event_type = et, user_id = uid, book_id = bid, session_id = sid,
          event_metadata = json_dumps (fst (meta_obj_of e et st2))\<rparr> \<and>
     15 \<le> gap \<and> gap \<le> 1800 \<and>
     cur' = (if cur + gap * 1000000 > NOW e then NOW e else cur + gap * 1000000) \<and>
     uuid_pos st' = Suc (uuid_pos st)"
proof -
  let ?st1 = "st\<lparr>uuid_pos := Suc (uuid_pos st)\<rparr>"
  let ?d = "draw_zipf_id e (BOOK_POOL_SIZE e) (135 / 100) (BOOK_ID_MAP e) ?st1"
  have "\<exists>bid st2. ?d = Some (Inr (bid, st2))"
    using assms by (cases ?d) (auto simp: emit_event_def uuid4_eq and_then_def split: sum.splits)
  then obtain bid st2 where draw: "?d = Some (Inr (bid, st2))" by blast
  let ?st3 = "snd (meta_obj_of e et st2)"
  let ?gap = "fst (np_randint e 15 1801 ?st3)"
  from draw_zipf_id_Inr [OF draw] have u2: "uuid_pos st2 = Suc (uuid_pos st)" by auto
  have g: "15 \<le> ?gap \<and> ?gap < 1801" by (rule np_randint_range) simp
  from assms draw have r: "r = \<lparr>event_id = uuid_at e (uuid_pos st), event_timestamp = second_of cur,
          event_type = et, user_id = uid, book_id = bid, session_id = sid,
          event_metadata = json_dumps (fst (meta_obj_of e et st2))\<rparr>"
    and c: "cur' = (if cur + ?gap * 1000000 > NOW e then NOW e else cur + ?gap * 1000000)"
    and s: "st' = snd (np_randint e 15 1801 ?st3)"
    by (auto simp: emit_event_def uuid4_eq split_beta Let_def)
  from s have "uuid_pos st' = Suc (uuid_pos st)"
    by (simp add: np_randint_eq meta_obj_of_uuid_pos u2)
  with draw r c g show ?thesis by (intro exI [of _ bid] exI [of _ st2] exI [of _ ?gap]) simp
qed

lemma emit_event_returns:
  assumes "ranks_recur e (BOOK_POOL_SIZE e)" "BOOK_POOL_SIZE e \<le> int (length (BOOK_ID_MAP e))"
  shows "\<exists>r cur' st'. emit_event e sid uid et cur st = Some (Inr (r, cur', st'))"
proof -
  from draw_zipf_id_returns [OF assms] obtain bid st2 where
    "draw_zipf_id e (BOOK_POOL_SIZE e) (135 / 100) (BOOK_ID_MAP e)
       (st\<lparr>uuid_pos := Suc (uuid_pos st)\<rparr>) = Some (Inr (bid, st2))"
    by blast
  then show ?thesis
    by (simp add: emit_event_def uuid4_eq split_beta Let_def)
qed

lemma session_events_Cons_Inr:
  assumes "session_events e sid uid (et # ets) cur st = Some (Inr (rs, st'))"
  obtains r cur1 st1 rs1 where
    "emit_event e sid uid et cur st = Some (Inr (r, cur1, st1))"
    "session_events e sid uid ets cur1 st1 = Some (Inr (rs1, st'))"
    "rs = r # rs1"
  using assms by (auto simp: and_then_Inr)

lemma session_events_fields:
  assumes "session_events e sid uid ets cur st = Some (Inr (rs, st'))"
  shows "length rs = length ets \<and> uuid_pos st' = uuid_pos st + length ets \<and>
         map event_type rs = ets \<and>
         (\<forall>r\<in>set rs. session_id r = sid \<and> user_id r = uid \<and>
            book_id r \<in> set (BOOK_ID_MAP e) \<and>
            (\<exists>st2. event_metadata r = json_dumps (fst (meta_obj_of e (event_type r) st2))))"
  using assms
proof (induction ets arbitrary: cur st rs)
  case Nil
  then show ?case by simp
next
  case (Cons et ets)
  from Cons.prems obtain r cur1 st1 rs1 where
    ev: "emit_event e sid uid et cur st = Some (Inr (r, cur1, st1))"
    and tl: "session_events e sid uid ets cur1 st1 = Some (Inr (rs1, st'))"
    and rs: "rs = r # rs1"
    by (rule session_events_Cons_Inr)
  from emit_event_Inr [OF ev] obtain bid st2 where
    draw: "draw_zipf_id e (BOOK_POOL_SIZE e) (135 / 100) (BOOK_ID_MAP e)
         (st\<lparr>uuid_pos := Suc (uuid_pos st)\<rparr>) = Some (Inr (bid, st2))"
    and r: "r = \<lparr>event_id = uuid_at e (uuid_pos st), event_timestamp = second_of cur,
          event_type = et, user_id = uid, book_id = bid, session_id = sid,
          event_metadata = json_dumps (fst (meta_obj_of e et st2))\<rparr>"
    and u1: "uuid_pos st1 = Suc (uuid_pos st)"
    by blast
  from draw_zipf_id_Inr [OF draw] have "bid \<in> set (BOOK_ID_MAP e)"
    by (blast dest: getitem_Inr)
  with r have "session_id r = sid \<and> user_id r = uid \<and> event_type r = et \<and>
      book_id r \<in> set (BOOK_ID_MAP e) \<and>
      (\<exists>st2. event_metadata r = json_dumps (fst (meta_obj_of e (event_type r) st2)))"
    by auto
  with Cons.IH [OF tl] rs u1 show ?case by auto
qed

lemma second_of_mono: "a \<le> b \<Longrightarrow> second_of a \<le> second_of b"
  by (simp add: second_of_def zdiv_mono1)

lemma second_of_fromtimestamp [simp]: "second_of (datetime_fromtimestamp ts) = ts"
  by (simp add: second_of_def datetime_fromtimestamp_def)

lemma second_of_NOW_le: "second_of (NOW e) \<le> END_TS e"
  unfolding second_of_def END_TS_def int_timestamp_def
  by (auto simp: div_minus_right)


lemma session_events_bounds:
  assumes "session_events e sid uid ets cur st = Some (Inr (rs, st'))"
    and "lo * 1000000 \<le> cur" and "lo * 1000000 \<le> NOW e" and "second_of cur \<le> END_TS e"
  shows "\<forall>r\<in>set rs. lo \<le> event_timestamp r \<and> event_timestamp r \<le> END_TS e"
  using assms
proof (induction ets arbitrary: cur st rs)
  case Nil
  then show ?case by simp
next
  case (Cons et ets)
  from Cons.prems(1) obtain r cur1 st1 rs1 where
    ev: "emit_event e sid uid et cur st = Some (Inr (r, cur1, st1))"
    and tl: "session_events e sid uid ets cur1 st1 = Some (Inr (rs1, st'))"
    and rs: "rs = r # rs1"
    by (rule session_events_Cons_Inr)
  from emit_event_Inr [OF ev] obtain gap where
    ts: "event_timestamp r = second_of cur"
    and gap: "15 \<le> gap"
    and cur1: "cur1 = (if cur + gap * 1000000 > NOW e then NOW e else cur + gap * 1000000)"
    by auto
  have "lo = second_of (lo * 1000000)" by (simp add: second_of_def)
  also have "\<dots> \<le> second_of cur" using Cons.prems(2) by (rule second_of_mono)
  finally have lo: "lo \<le> event_timestamp r" using ts by simp
  have lo1: "lo * 1000000 \<le> cur1"
    using cur1 gap Cons.prems(2,3) by (auto split: if_splits)
  have "cur1 \<le> NOW e" using cur1 by (auto split: if_splits)
  then have "second_of cur1 \<le> second_of (NOW e)" by (rule second_of_mono)
  then have hi1: "second_of cur1 \<le> END_TS e" using second_of_NOW_le [of e] by simp
  from Cons.IH [OF tl lo1 Cons.prems(3) hi1] lo ts Cons.prems(4) rs show ?case by simp
qed

lemma session_events_sorted:
  assumes "session_events e sid uid ets cur st = Some (Inr (rs, st'))" and "cur \<le> NOW e"
  shows "sorted (map event_timestamp rs) \<and> (\<forall>r\<in>set rs. second_of cur \<le> event_timestamp r)"
  using assms
proof (induction ets arbitrary: cur st rs)
  case Nil
  then show ?case by simp
next
  case (Cons et ets)
  from Cons.prems(1) obtain r cur1 st1 rs1 where
    ev: "emit_event e sid uid et cur st = Some (Inr (r, cur1, st1))"
    and tl: "session_events e sid uid ets cur1 st1 = Some (Inr (rs1, st'))"
    and rs: "rs = r # rs1"
    by (rule session_events_Cons_Inr)
  from emit_event_Inr [OF ev] obtain gap where
    ts: "event_timestamp r = second_of cur"
    and gap: "15 \<le> gap"
    and cur1: "cur1 = (if cur + gap * 1000000 > NOW e then NOW e else cur + gap * 1000000)"
    by auto
  have step: "cur \<le> cur1" and le: "cur1 \<le> NOW e"
    using cur1 gap Cons.prems(2) by (auto split: if_splits)
  from Cons.IH [OF tl le] have srt: "sorted (map event_timestamp rs1)"
    and ge: "\<forall>r\<in>set rs1. second_of cur1 \<le> event_timestamp r"
    by blast+
  have "\<forall>r\<in>set rs1. second_of cur \<le> event_timestamp r"
    using ge second_of_mono [OF step] by fastforce
  with srt ts rs show ?case by simp
qed

lemma int_timestamp_mono: "a \<le> b \<Longrightarrow> int_timestamp a \<le> int_timestamp b"
  unfolding int_timestamp_def
  by (auto simp: zdiv_mono1 intro: order_trans [of _ 0])

lemma START_TS_le_END_TS: "START_TS e \<le> END_TS e"
  unfolding START_TS_def END_TS_def START_def by (rule int_timestamp_mono) simp

lemma START_TS_le_NOW: "START_TS e * 1000000 \<le> NOW e"
  unfolding START_TS_def START_def int_timestamp_def
  by (auto simp: algebra_simps)


lemma rand_ts_eq:
  "rand_ts_last_two_years e st =
     (datetime_fromtimestamp (fst (np_randint e (START_TS e) (END_TS e + 1) st)),
      st\<lparr>np_pos := Suc (np_pos st)\<rparr>)"
  by (simp add: rand_ts_last_two_years_def np_randint_eq)

lemma rand_ts_range:
  "START_TS e \<le> fst (np_randint e (START_TS e) (END_TS e + 1) st) \<and>
   fst (np_randint e (START_TS e) (END_TS e + 1) st) \<le> END_TS e"
  using np_randint_range [of "START_TS e" "END_TS e + 1" e st] START_TS_le_END_TS [of e]
  by simp

lemma gen_session_Inr:
  assumes "gen_session e slen st = Some (Inr (rs, st'))"
  shows "\<exists>uid ts ets st4.
     uid \<in> set (USER_ID_MAP e) \<and> START_TS e \<le> ts \<and> ts \<le> END_TS e \<and>
     length ets = nat slen \<and> set ets \<subseteq> set EVENT_TYPES \<and>
     uuid_pos st4 = Suc (uuid_pos st) \<and>
     session_events e (uuid_at e (uuid_pos st)) uid ets (datetime_fromtimestamp ts) st4
       = Some (Inr (rs, st'))"
proof -
  let ?st1 = "st\<lparr>uuid_pos := Suc (uuid_pos st)\<rparr>"
  let ?d = "draw_zipf_id e (USER_POOL_SIZE e) (125 / 100) (USER_ID_MAP e) ?st1"
  have "\<exists>uid st2. ?d = Some (Inr (uid, st2))"
    using assms by (cases ?d) (auto simp: gen_session_def uuid4_eq and_then_def split: sum.splits)
  then obtain uid st2 where draw: "?d = Some (Inr (uid, st2))" by blast
  let ?ts = "fst (np_randint e (START_TS e) (END_TS e + 1) st2)"
  let ?st3 = "st2\<lparr>np_pos := Suc (np_pos st2)\<rparr>"
  let ?ets = "fst (np_choice_size e EVENT_TYPES (nat slen) ?st3)"
  let ?st4 = "snd (np_choice_size e EVENT_TYPES (nat slen) ?st3)"
  from draw_zipf_id_Inr [OF draw] have u2: "uuid_pos st2 = Suc (uuid_pos st)"
    and uid: "uid \<in> set (USER_ID_MAP e)"
    by (auto dest: getitem_Inr)
  have run: "session_events e (uuid_at e (uuid_pos st)) uid ?ets (datetime_fromtimestamp ?ts) ?st4
       = Some (Inr (rs, st'))"
    using assms draw by (simp add: gen_session_def uuid4_eq rand_ts_eq split_beta)
  have "EVENT_TYPES \<noteq> []" by (simp add: EVENT_TYPES_def)
  then have mem: "set ?ets \<subseteq> set EVENT_TYPES" by (rule np_choice_size_mem)
  have "uuid_pos ?st4 = Suc (uuid_pos st)" by (simp add: np_choice_size_snd u2)
  with uid rand_ts_range [of e st2] mem run show ?thesis
    by (intro exI [of _ uid] exI [of _ ?ts] exI [of _ ?ets] exI [of _ ?st4])
      (simp add: np_choice_size_length)
qed

lemma gen_sessions_Cons_Inr:
  assumes "gen_sessions e (slen # lens) st = Some (Inr (rows, st'))"
  obtains rs st1 rss where
    "gen_session e slen st = Some (Inr (rs, st1))"
    "gen_sessions e lens st1 = Some (Inr (rss, st'))"
    "rows = rs @ rss"
  using assms by (auto simp: and_then_Inr)

lemma gen_sessions_all:
  assumes "gen_sessions e lens st = Some (Inr (rows, st'))"
    and "\<And>slen st rs st'. gen_session e slen st = Some (Inr (rs, st')) \<Longrightarrow> \<forall>r\<in>set rs. P r"
  shows "\<forall>r\<in>set rows. P r"
  using assms(1)
proof (induction lens arbitrary: st rows)
  case Nil
  then show ?case by simp
next
  case (Cons slen lens)
  from Cons.prems obtain rs st1 rss where
    "gen_session e slen st = Some (Inr (rs, st1))"
    "gen_sessions e lens st1 = Some (Inr (rss, st'))"
    "rows = rs @ rss"
    by (rule gen_sessions_Cons_Inr)
  with Cons.IH assms(2) show ?case by auto
qed

lemma gen_sessions_length:
  assumes "gen_sessions e lens st = Some (Inr (rows, st'))"
  shows "length rows = sum_list (map nat lens)"
  using assms
proof (induction lens arbitrary: st rows)
  case Nil
  then show ?case by simp
next
  case (Cons slen lens)
  from Cons.prems obtain rs st1 rss where
    s: "gen_session e slen st = Some (Inr (rs, st1))"
    and t: "gen_sessions e lens st1 = Some (Inr (rss, st'))"
    and r: "rows = rs @ rss"
    by (rule gen_sessions_Cons_Inr)
  from gen_session_Inr [OF s] session_events_fields have "length rs = nat slen"
    by (metis (no_types, lifting))
  with Cons.IH [OF t] r show ?case by simp
qed

lemma iloc_upto_take: "\<exists>m. iloc_upto df n = take m df"
  by (auto simp: iloc_upto_def)

lemma generate_chunk_Inr:
  assumes "generate_chunk e n st = Some (Inr (df, st'))"
  shows "\<exists>lens tot st1 rows m.
     draw_session_lengths e n GEOM_P MAX_SESSION_LEN st = Some ((lens, tot), st1) \<and>
     gen_sessions e lens st1 = Some (Inr (rows, st')) \<and> df = take m rows"
proof -
  let ?p = "draw_session_lengths e n GEOM_P MAX_SESSION_LEN st"
  from assms obtain lens tot st1 where plan: "?p = Some ((lens, tot), st1)"
    by (cases ?p) (auto simp: generate_chunk_def)
  with assms obtain rows where
    rows: "gen_sessions e lens st1 = Some (Inr (rows, st'))"
    and df: "df = (if int (length rows) > n then iloc_upto rows n else rows)"
    by (auto simp: generate_chunk_def and_then_Inr)
  have "\<exists>m. df = take m rows"
  proof (cases "int (length rows) > n")
    case True
    with df iloc_upto_take [of rows n] show ?thesis by simp
  next
    case False
    with df have "df = take (length rows) rows" by simp
    then show ?thesis ..
  qed
  with plan rows show ?thesis by blast
qed

section \<open>The generator returns\<close>

lemma session_events_returns:
  assumes "ranks_recur e (BOOK_POOL_SIZE e)" "BOOK_POOL_SIZE e \<le> int (length (BOOK_ID_MAP e))"
  shows "\<exists>rs st'. session_events e sid uid ets cur st = Some (Inr (rs, st'))"
proof (induction ets arbitrary: cur st)
  case Nil
  show ?case by simp
next
  case (Cons et ets)
  from emit_event_returns [OF assms] obtain r cur1 st1 where
    ev: "emit_event e sid uid et cur st = Some (Inr (r, cur1, st1))" by blast
  from Cons.IH obtain rs st' where
    "session_events e sid uid ets cur1 st1 = Some (Inr (rs, st'))" by blast
  with ev show ?case by simp
qed

lemma gen_session_returns:
  assumes "ranks_recur e (USER_POOL_SIZE e)" "USER_POOL_SIZE e \<le> int (length (USER_ID_MAP e))"
    and "ranks_recur e (BOOK_POOL_SIZE e)" "BOOK_POOL_SIZE e \<le> int (length (BOOK_ID_MAP e))"
  shows "\<exists>rs st'. gen_session e slen st = Some (Inr (rs, st'))"
proof -
  from draw_zipf_id_returns [OF assms(1,2)] obtain uid st2 where
    "draw_zipf_id e (USER_POOL_SIZE e) (125 / 100) (USER_ID_MAP e)
       (st\<lparr>uuid_pos := Suc (uuid_pos st)\<rparr>) = Some (Inr (uid, st2))"
    by blast
  then show ?thesis
    using session_events_returns [OF assms(3,4)]
    by (simp add: gen_session_def uuid4_eq split_beta)
qed

lemma gen_sessions_returns:
  assumes "ranks_recur e (USER_POOL_SIZE e)" "USER_POOL_SIZE e \<le> int (length (USER_ID_MAP e))"
    and "ranks_recur e (BOOK_POOL_SIZE e)" "BOOK_POOL_SIZE e \<le> int (length (BOOK_ID_MAP e))"
  shows "\<exists>rows st'. gen_sessions e lens st = Some (Inr (rows, st'))"
proof (induction lens arbitrary: st)
  case Nil
  show ?case by simp
next
  case (Cons slen lens)
  from gen_session_returns [OF assms] obtain rs st1 where
    s: "gen_session e slen st = Some (Inr (rs, st1))" by blast
  from Cons.IH obtain rss st' where
    "gen_sessions e lens st1 = Some (Inr (rss, st'))" by blast
  with s show ?case by simp
qed

lemma is_pool_permutation_length:
  assumes "is_pool_permutation m n"
  shows "n \<le> int (length m)"
proof -
  from assms have "length m = card {1..n}"
    by (metis distinct_card is_pool_permutation_def)
  then show ?thesis by simp
qed

lemma sum_list_nat_pos:
  "\<forall>l\<in>set lens. (1::int) \<le> l \<Longrightarrow> int (sum_list (map nat lens)) = sum_list lens"
  by (induction lens) simp_all

lemma draw_session_lengths_returns:
  "\<exists>lens st1.
     draw_session_lengths e n GEOM_P MAX_SESSION_LEN st = Some ((lens, sum_list lens), st1) \<and>
     (\<forall>l\<in>set lens. 1 \<le> l \<and> l \<le> MAX_SESSION_LEN) \<and> n \<le> sum_list lens \<and>
     (0 < n \<longrightarrow> sum_list (butlast lens) < n) \<and> uuid_pos st1 = uuid_pos st"
proof -
  have "1 \<le> MAX_SESSION_LEN" by (simp add: MAX_SESSION_LEN_def)
  from session_loop_returns [OF this, of e n GEOM_P "[]" 0 st]
  obtain lens st1 where
    run: "session_loop e n GEOM_P MAX_SESSION_LEN [] 0 st
            = Some (([] @ lens, 0 + sum_list lens), st1)"
    and rng: "\<forall>l\<in>set lens. 1 \<le> l \<and> l \<le> MAX_SESSION_LEN"
    and tgt: "n \<le> 0 + sum_list lens"
    and lst: "if 0 < n then lens \<noteq> [] \<and> 0 + sum_list (butlast lens) < n else lens = []"
    and st1: "st1 = st\<lparr>np_pos := np_pos st + length lens\<rparr>"
    by blast
  from lst have "0 < n \<longrightarrow> sum_list (butlast lens) < n" by (simp split: if_splits)
  with run rng tgt st1 show ?thesis
    by (intro exI [of _ lens] exI [of _ st1]) (simp add: draw_session_lengths_def)
qed

section \<open>The worked run\<close>

lemma example_run:
  "generate_chunk (example_env example_stream) 5 initial_state =
     Some (Inr (example_chunk, \<lparr>np_pos = 51, uuid_pos = 10, fake_pos = 1\<rparr>))"
  by code_simp

lemma example_ranks_recur: "1 \<le> m \<Longrightarrow> ranks_recur (example_env example_stream) m"
  unfolding ranks_recur_def
proof
  fix p
  assume "1 \<le> m"
  then have "1 + \<bar>np_raw (example_env example_stream) (p + 34)\<bar> \<le> m"
    by (simp add: example_env_def example_stream_def)
  then show "\<exists>k. 1 + \<bar>np_raw (example_env example_stream) (p + k)\<bar> \<le> m" ..
qed

lemma example_pools:
  "is_pool_permutation (USER_ID_MAP (example_env s)) (USER_POOL_SIZE (example_env s))"
  "is_pool_permutation (BOOK_ID_MAP (example_env s)) (BOOK_POOL_SIZE (example_env s))"
  by (auto simp: is_pool_permutation_def example_env_def)

lemma example_tokens_distinct: "inj_on (uuid_at (example_env example_stream)) {0..<10}"
proof -
  have "distinct (map (uuid_at (example_env example_stream)) [0..<10])"
    by code_simp
  then show ?thesis by (simp add: distinct_map)
qed

section \<open>Timestamps\<close>

lemma gen_session_bounds:
  assumes "gen_session e slen st = Some (Inr (rs, st'))"
  shows "\<forall>r\<in>set rs. START_TS e \<le> event_timestamp r \<and> event_timestamp r \<le> END_TS e"
proof -
  from gen_session_Inr [OF assms] obtain uid ts ets st4 where
    ts: "START_TS e \<le> ts" "ts \<le> END_TS e"
    and run: "session_events e (uuid_at e (uuid_pos st)) uid ets (datetime_fromtimestamp ts) st4
       = Some (Inr (rs, st'))"
    by blast
  have "START_TS e * 1000000 \<le> datetime_fromtimestamp ts"
    using ts(1) by (simp add: datetime_fromtimestamp_def)
  moreover have "second_of (datetime_fromtimestamp ts) \<le> END_TS e" using ts(2) by simp
  ultimately show ?thesis
    using session_events_bounds [OF run _ START_TS_le_NOW] by blast
qed

text \<open>
  C4 (amended).  Every row of a generated chunk carries a timestamp, a whole second,
  between \<open>START_TS\<close> and \<open>END_TS\<close>: the instants \<open>START = NOW - 730 days\<close> and \<open>NOW\<close>
  cut to whole seconds by \<open>int(\<dots>.timestamp())\<close>.  Each pass of the inner loop stamps the
  row with the second of the cursor and then advances the cursor by a gap of 15 to 1800
  seconds, replacing it by \<open>NOW\<close> when it would pass \<open>NOW\<close>.  When the run starts at or
  after the epoch, no stamp is later than \<open>NOW\<close> itself.
\<close>

theorem event_timestamp_in_window:
  "(generate_chunk e n st = Some (Inr (df, st')) \<longrightarrow>
      (\<forall>r\<in>set df. START_TS e \<le> event_timestamp r \<and> event_timestamp r \<le> END_TS e)) \<and>
   (emit_event e sid uid et cur st = Some (Inr (r, cur', st1)) \<longrightarrow>
      event_timestamp r = second_of cur \<and>
      (\<exists>gap. 15 \<le> gap \<and> gap \<le> 1800 \<and>
         cur' = (if cur + gap * 1000000 > NOW e then NOW e else cur + gap * 1000000))) \<and>
   (generate_chunk e n st = Some (Inr (df, st')) \<and> 0 \<le> NOW e \<longrightarrow>
      (\<forall>r\<in>set df. datetime_fromtimestamp (event_timestamp r) \<le> NOW e))"
proof (intro conjI impI)
  assume "generate_chunk e n st = Some (Inr (df, st')) \<and> 0 \<le> NOW e"
  then have run: "generate_chunk e n st = Some (Inr (df, st'))" and now: "0 \<le> NOW e"
    by blast+
  from generate_chunk_Inr [OF run] obtain lens st1 rows m where
    rows: "gen_sessions e lens st1 = Some (Inr (rows, st'))" and df: "df = take m rows"
    by blast
  have "\<forall>r\<in>set rows. START_TS e \<le> event_timestamp r \<and> event_timestamp r \<le> END_TS e"
    using rows gen_session_bounds by (rule gen_sessions_all)
  then have le: "\<forall>r\<in>set df. event_timestamp r \<le> END_TS e"
    using df by (auto dest: in_set_takeD)
  have "END_TS e * 1000000 \<le> NOW e"
    using now by (simp add: END_TS_def int_timestamp_def)
  with le show "\<forall>r\<in>set df. datetime_fromtimestamp (event_timestamp r) \<le> NOW e"
    by (fastforce simp: datetime_fromtimestamp_def)
next
  assume "generate_chunk e n st = Some (Inr (df, st'))"
  from generate_chunk_Inr [OF this] obtain lens st1 rows m where
    rows: "gen_sessions e lens st1 = Some (Inr (rows, st'))" and df: "df = take m rows"
    by blast
  have "\<forall>r\<in>set rows. START_TS e \<le> event_timestamp r \<and> event_timestamp r \<le> END_TS e"
    using rows gen_session_bounds by (rule gen_sessions_all)
  then show "\<forall>r\<in>set df. START_TS e \<le> event_timestamp r \<and> event_timestamp r \<le> END_TS e"
    using df by (auto dest: in_set_takeD)
next
  assume "emit_event e sid uid et cur st = Some (Inr (r, cur', st1))"
  from emit_event_Inr [OF this]
  show "event_timestamp r = second_of cur" by auto
next
  assume "emit_event e sid uid et cur st = Some (Inr (r, cur', st1))"
  from emit_event_Inr [OF this]
  show "\<exists>gap. 15 \<le> gap \<and> gap \<le> 1800 \<and>
         cur' = (if cur + gap * 1000000 > NOW e then NOW e else cur + gap * 1000000)"
    by blast
qed

theorem event_timestamp_in_window_witness:
  "START_TS (example_env example_stream) = 1636928000 \<and>
   END_TS (example_env example_stream) = 1700000000 \<and>
   generate_chunk (example_env example_stream) 5 initial_state =
     Some (Inr (example_chunk, \<lparr>np_pos = 51, uuid_pos = 10, fake_pos = 1\<rparr>)) \<and>
   map event_timestamp example_chunk =
     [1636929000, 1636929115, 1700000000, 1700000000, 1636928000] \<and>
   list_all (\<lambda>r. START_TS (example_env example_stream) \<le> event_timestamp r \<and>
                 event_timestamp r \<le> END_TS (example_env example_stream)) example_chunk \<and>
   list_all (\<lambda>r. datetime_fromtimestamp (event_timestamp r) \<le> NOW (example_env example_stream))
     example_chunk"
proof -
  have "\<forall>r\<in>set example_chunk. START_TS (example_env example_stream) \<le> event_timestamp r \<and>
      event_timestamp r \<le> END_TS (example_env example_stream)"
    using event_timestamp_in_window [of "example_env example_stream" 5 initial_state example_chunk]
      example_run by blast
  moreover have "0 \<le> NOW (example_env example_stream)" by (simp add: example_env_def)
  then have "\<forall>r\<in>set example_chunk.
      datetime_fromtimestamp (event_timestamp r) \<le> NOW (example_env example_stream)"
    using event_timestamp_in_window [of "example_env example_stream" 5 initial_state example_chunk]
      example_run by blast
  moreover have "START_TS (example_env example_stream) = 1636928000"
    "END_TS (example_env example_stream) = 1700000000"
    by (simp_all add: START_TS_def END_TS_def START_def int_timestamp_def example_env_def)
  moreover have "map event_timestamp example_chunk =
     [1636929000, 1636929115, 1700000000, 1700000000, 1636928000]"
    by (simp add: example_chunk_def)
  ultimately show ?thesis using example_run by (simp add: list_all_iff)
qed

text \<open>
  C4 as stated fails at the lower end: \<open>randint\<close> can return \<open>START_TS\<close>, and when \<open>NOW\<close>
  has a fraction of a second the instant \<open>START\<close> lies after that second.  The last row of
  the worked run is stamped half a second before \<open>START\<close>.
\<close>

theorem start_bound_is_whole_seconds:
  "generate_chunk (example_env example_stream) 5 initial_state =
     Some (Inr (example_chunk, \<lparr>np_pos = 51, uuid_pos = 10, fake_pos = 1\<rparr>)) \<and>
   event_timestamp (example_chunk ! 4) = 1636928000 \<and>
   START (example_env example_stream) = 1636928000500000 \<and>
   datetime_fromtimestamp (event_timestamp (example_chunk ! 4)) < START (example_env example_stream)"
  using example_run
  by (simp add: example_chunk_def START_def example_env_def datetime_fromtimestamp_def)

section \<open>Identifiers\<close>

lemma gen_session_ids:
  assumes "gen_session e slen st = Some (Inr (rs, st'))"
  shows "\<forall>r\<in>set rs. user_id r \<in> set (USER_ID_MAP e) \<and> book_id r \<in> set (BOOK_ID_MAP e)"
proof -
  from gen_session_Inr [OF assms] obtain uid ts ets st4 where
    uid: "uid \<in> set (USER_ID_MAP e)"
    and run: "session_events e (uuid_at e (uuid_pos st)) uid ets (datetime_fromtimestamp ts) st4
       = Some (Inr (rs, st'))"
    by blast
  from session_events_fields [OF run] uid show ?thesis by auto
qed

text \<open>
  C5.  When the sampler returns, the ranks it drew before the accepted one all exceeded
  \<open>max_id\<close> and were discarded, the accepted rank does not exceed \<open>max_id\<close>, and the
  value is the mapping's entry at that rank.  With the two mappings the permutations of
  their pools, every row of a generated chunk has its user identifier between 1 and
  \<open>USER_POOL_SIZE\<close> and its book identifier between 1 and \<open>BOOK_POOL_SIZE\<close>.
\<close>

theorem ids_within_pools:
  assumes "is_pool_permutation (USER_ID_MAP e) (USER_POOL_SIZE e)"
    and "is_pool_permutation (BOOK_ID_MAP e) (BOOK_POOL_SIZE e)"
  shows "(draw_zipf_id e max_id a mapping st = Some (Inr (v, st1)) \<longrightarrow>
           (\<exists>k. (\<forall>j<k. max_id < zipf_rank e st j) \<and> zipf_rank e st k \<le> max_id \<and>
                getitem mapping (zipf_rank e st k - 1) = Inr v \<and>
                st1 = st\<lparr>np_pos := Suc (np_pos st + k)\<rparr>)) \<and>
         (generate_chunk e n st = Some (Inr (df, st')) \<longrightarrow>
           (\<forall>r\<in>set df. 1 \<le> user_id r \<and> user_id r \<le> USER_POOL_SIZE e \<and>
                         1 \<le> book_id r \<and> book_id r \<le> BOOK_POOL_SIZE e))"
proof (intro conjI impI)
  assume "draw_zipf_id e max_id a mapping st = Some (Inr (v, st1))"
  then show "\<exists>k. (\<forall>j<k. max_id < zipf_rank e st j) \<and> zipf_rank e st k \<le> max_id \<and>
                getitem mapping (zipf_rank e st k - 1) = Inr v \<and>
                st1 = st\<lparr>np_pos := Suc (np_pos st + k)\<rparr>"
    by (rule draw_zipf_id_Inr)
next
  assume "generate_chunk e n st = Some (Inr (df, st'))"
  from generate_chunk_Inr [OF this] obtain lens st1 rows m where
    rows: "gen_sessions e lens st1 = Some (Inr (rows, st'))" and df: "df = take m rows"
    by blast
  have "\<forall>r\<in>set rows. user_id r \<in> set (USER_ID_MAP e) \<and> book_id r \<in> set (BOOK_ID_MAP e)"
    using rows gen_session_ids by (rule gen_sessions_all)
  then have "\<forall>r\<in>set df. user_id r \<in> {1..USER_POOL_SIZE e} \<and> book_id r \<in> {1..BOOK_POOL_SIZE e}"
    using df assms by (auto simp: is_pool_permutation_def dest: in_set_takeD)
  then show "\<forall>r\<in>set df. 1 \<le> user_id r \<and> user_id r \<le> USER_POOL_SIZE e \<and>
                         1 \<le> book_id r \<and> book_id r \<le> BOOK_POOL_SIZE e"
    by simp
qed

theorem ids_within_pools_witness:
  "generate_chunk (example_env example_stream) 5 initial_state =
     Some (Inr (example_chunk, \<lparr>np_pos = 51, uuid_pos = 10, fake_pos = 1\<rparr>)) \<and>
   map user_id example_chunk = [1, 1, 2, 2, 2] \<and>
   map book_id example_chunk = [2, 1, 2, 1, 2] \<and>
   list_all (\<lambda>r. 1 \<le> user_id r \<and> user_id r \<le> 3 \<and> 1 \<le> book_id r \<and> book_id r \<le> 2)
     example_chunk \<and>
   draw_zipf_id (example_env example_stream) 3 (125 / 100) [2, 3, 1]
       \<lparr>np_pos = 3, uuid_pos = 1, fake_pos = 0\<rparr>
     = Some (Inr (1, \<lparr>np_pos = 5, uuid_pos = 1, fake_pos = 0\<rparr>)) \<and>
   zipf_rank (example_env example_stream) \<lparr>np_pos = 3, uuid_pos = 1, fake_pos = 0\<rparr> 0 = 6 \<and>
   zipf_rank (example_env example_stream) \<lparr>np_pos = 3, uuid_pos = 1, fake_pos = 0\<rparr> 1 = 3"
proof -
  let ?e = "example_env example_stream"
  have "\<forall>r\<in>set example_chunk. 1 \<le> user_id r \<and> user_id r \<le> USER_POOL_SIZE ?e \<and>
      1 \<le> book_id r \<and> book_id r \<le> BOOK_POOL_SIZE ?e"
    using ids_within_pools [OF example_pools, where n = 5 and st = initial_state
        and df = example_chunk] example_run by blast
  then have "list_all (\<lambda>r. 1 \<le> user_id r \<and> user_id r \<le> 3 \<and> 1 \<le> book_id r \<and> book_id r \<le> 2)
     example_chunk"
    by (simp add: list_all_iff example_env_def)
  moreover have "draw_zipf_id ?e 3 (125 / 100) [2, 3, 1] \<lparr>np_pos = 3, uuid_pos = 1, fake_pos = 0\<rparr>
     = Some (Inr (1, \<lparr>np_pos = 5, uuid_pos = 1, fake_pos = 0\<rparr>))"
    by code_simp
  moreover have "zipf_rank ?e \<lparr>np_pos = 3, uuid_pos = 1, fake_pos = 0\<rparr> 0 = 6"
    "zipf_rank ?e \<lparr>np_pos = 3, uuid_pos = 1, fake_pos = 0\<rparr> 1 = 3"
    by (simp_all add: zipf_rank_def example_env_def example_stream_def)
  moreover have "map user_id example_chunk = [1, 1, 2, 2, 2]"
    "map book_id example_chunk = [2, 1, 2, 1, 2]"
    by (simp_all add: example_chunk_def)
  ultimately show ?thesis using example_run by simp
qed

section \<open>Row counts\<close>

lemma generate_chunk_returns:
  assumes "0 \<le> n"
    and "ranks_recur e (USER_POOL_SIZE e)" and "ranks_recur e (BOOK_POOL_SIZE e)"
    and "is_pool_permutation (USER_ID_MAP e) (USER_POOL_SIZE e)"
    and "is_pool_permutation (BOOK_ID_MAP e) (BOOK_POOL_SIZE e)"
  shows "\<exists>lens st1 rows st'.
     draw_session_lengths e n GEOM_P MAX_SESSION_LEN st = Some ((lens, sum_list lens), st1) \<and>
     (\<forall>l\<in>set lens. 1 \<le> l \<and> l \<le> MAX_SESSION_LEN) \<and>
     n \<le> sum_list lens \<and> (0 < n \<longrightarrow> sum_list (butlast lens) < n) \<and>
     gen_sessions e lens st1 = Some (Inr (rows, st')) \<and>
     int (length rows) = sum_list lens \<and>
     generate_chunk e n st = Some (Inr (take (nat n) rows, st')) \<and>
     length (take (nat n) rows) = nat n"
proof -
  from draw_session_lengths_returns [of e n st] obtain lens st1 where
    plan: "draw_session_lengths e n GEOM_P MAX_SESSION_LEN st = Some ((lens, sum_list lens), st1)"
    and rng: "\<forall>l\<in>set lens. 1 \<le> l \<and> l \<le> MAX_SESSION_LEN"
    and tgt: "n \<le> sum_list lens"
    and lst: "0 < n \<longrightarrow> sum_list (butlast lens) < n"
    by blast
  from gen_sessions_returns [OF assms(2) is_pool_permutation_length [OF assms(4)]
      assms(3) is_pool_permutation_length [OF assms(5)]]
  obtain rows st' where rows: "gen_sessions e lens st1 = Some (Inr (rows, st'))" by blast
  from gen_sessions_length [OF rows] rng have len: "int (length rows) = sum_list lens"
    by (simp add: sum_list_nat_pos)
  have "(if int (length rows) > n then iloc_upto rows n else rows) = take (nat n) rows"
    using assms(1) len tgt by (simp add: iloc_upto_def)
  with plan rows have run: "generate_chunk e n st = Some (Inr (take (nat n) rows, st'))"
    by (simp add: generate_chunk_def)
  have "length (take (nat n) rows) = nat n" using len tgt by simp
  with plan rng tgt lst rows len run show ?thesis by (intro exI conjI) auto
qed

text \<open>
  C6.  For a request of \<open>n \<ge> 0\<close> rows, on a stream whose ranks return to the pools and
  with the mappings the permutations of the pools, the generator returns exactly \<open>n\<close>
  rows: the planned session lengths lie between 1 and 20, their sum reaches \<open>n\<close> while
  the sum without the last one does not, every planned event is materialised, and the
  frame returned is the first \<open>n\<close> rows of the materialised ones.
\<close>

theorem generate_chunk_exact_count:
  assumes "0 \<le> n"
    and "ranks_recur e (USER_POOL_SIZE e)" and "ranks_recur e (BOOK_POOL_SIZE e)"
    and "is_pool_permutation (USER_ID_MAP e) (USER_POOL_SIZE e)"
    and "is_pool_permutation (BOOK_ID_MAP e) (BOOK_POOL_SIZE e)"
  shows "\<exists>lens st1 rows st'.
     draw_session_lengths e n GEOM_P MAX_SESSION_LEN st = Some ((lens, sum_list lens), st1) \<and>
     (\<forall>l\<in>set lens. 1 \<le> l \<and> l \<le> MAX_SESSION_LEN) \<and>
     n \<le> sum_list lens \<and> (0 < n \<longrightarrow> sum_list (butlast lens) < n) \<and>
     gen_sessions e lens st1 = Some (Inr (rows, st')) \<and>
     int (length rows) = sum_list lens \<and>
     generate_chunk e n st = Some (Inr (take (nat n) rows, st')) \<and>
     length (take (nat n) rows) = nat n"
  using assms by (rule generate_chunk_returns)

theorem generate_chunk_exact_count_witness:
  "draw_session_lengths (example_env example_stream) 5 GEOM_P MAX_SESSION_LEN initial_state =
     Some (([2, 2, 3], 7), \<lparr>np_pos = 3, uuid_pos = 0, fake_pos = 0\<rparr>) \<and>
   generate_chunk (example_env example_stream) 5 initial_state =
     Some (Inr (example_chunk, \<lparr>np_pos = 51, uuid_pos = 10, fake_pos = 1\<rparr>)) \<and>
   length example_chunk = 5"
proof -
  let ?e = "example_env example_stream"
  have u: "ranks_recur ?e (USER_POOL_SIZE ?e)" and b: "ranks_recur ?e (BOOK_POOL_SIZE ?e)"
    by (rule example_ranks_recur, simp add: example_env_def)+
  from generate_chunk_exact_count [of 5 ?e initial_state, OF _ u b example_pools]
  obtain rows st' where
    "generate_chunk ?e 5 initial_state = Some (Inr (take (nat 5) rows, st'))"
    "length (take (nat 5) rows) = nat 5"
    by auto
  with example_run have "length example_chunk = 5" by simp
  moreover have "draw_session_lengths ?e 5 GEOM_P MAX_SESSION_LEN initial_state =
     Some (([2, 2, 3], 7), \<lparr>np_pos = 3, uuid_pos = 0, fake_pos = 0\<rparr>)"
    by code_simp
  ultimately show ?thesis using example_run by simp
qed

section \<open>Sessions\<close>

lemma END_TS_le_NOW: "0 \<le> NOW e \<Longrightarrow> END_TS e * 1000000 \<le> NOW e"
  by (simp add: END_TS_def int_timestamp_def)

lemma gen_session_coherent:
  assumes "gen_session e slen st = Some (Inr (rs, st'))" and "0 \<le> NOW e"
  shows "(\<forall>r\<in>set rs. session_id r = uuid_at e (uuid_pos st)) \<and>
         (\<exists>uid. \<forall>r\<in>set rs. user_id r = uid) \<and>
         sorted (map event_timestamp rs) \<and>
         uuid_pos st < uuid_pos st'"
proof -
  from gen_session_Inr [OF assms(1)] obtain uid ts ets st4 where
    ts: "ts \<le> END_TS e"
    and u4: "uuid_pos st4 = Suc (uuid_pos st)"
    and run: "session_events e (uuid_at e (uuid_pos st)) uid ets (datetime_fromtimestamp ts) st4
       = Some (Inr (rs, st'))"
    by blast
  have "datetime_fromtimestamp ts \<le> END_TS e * 1000000"
    using ts by (simp add: datetime_fromtimestamp_def)
  then have "datetime_fromtimestamp ts \<le> NOW e"
    using END_TS_le_NOW [OF assms(2)] by simp
  from session_events_sorted [OF run this] have "sorted (map event_timestamp rs)" by blast
  moreover from session_events_fields [OF run] u4
  have "(\<forall>r\<in>set rs. session_id r = uuid_at e (uuid_pos st) \<and> user_id r = uid)"
    and "uuid_pos st < uuid_pos st'"
    by auto
  ultimately show ?thesis by blast
qed

lemma gen_sessions_tokens:
  assumes "gen_sessions e lens st = Some (Inr (rows, st'))" and "0 \<le> NOW e"
  shows "uuid_pos st \<le> uuid_pos st' \<and>
         (\<forall>r\<in>set rows. session_id r \<in> uuid_at e ` {uuid_pos st..<uuid_pos st'})"
  using assms(1)
proof (induction lens arbitrary: st rows)
  case Nil
  then show ?case by simp
next
  case (Cons slen lens)
  from Cons.prems obtain rs st1 rss where
    s: "gen_session e slen st = Some (Inr (rs, st1))"
    and t: "gen_sessions e lens st1 = Some (Inr (rss, st'))"
    and r: "rows = rs @ rss"
    by (rule gen_sessions_Cons_Inr)
  from gen_session_coherent [OF s assms(2)] have
    sid: "\<forall>r\<in>set rs. session_id r = uuid_at e (uuid_pos st)" and lt: "uuid_pos st < uuid_pos st1"
    by blast+
  from Cons.IH [OF t] have le: "uuid_pos st1 \<le> uuid_pos st'"
    and tl: "\<forall>r\<in>set rss. session_id r \<in> uuid_at e ` {uuid_pos st1..<uuid_pos st'}"
    by blast+
  have "\<forall>r\<in>set rs. session_id r \<in> uuid_at e ` {uuid_pos st..<uuid_pos st'}"
    using sid lt le by auto
  moreover have "\<forall>r\<in>set rss. session_id r \<in> uuid_at e ` {uuid_pos st..<uuid_pos st'}"
    using tl lt by fastforce
  ultimately show ?case using r lt le by auto
qed

lemma session_coherent_single:
  assumes "\<forall>r\<in>set rs. user_id r = uid" and "sorted (map event_timestamp rs)"
  shows "session_coherent rs"
  unfolding session_coherent_def
proof (intro allI impI)
  fix i j
  assume h: "i < j \<and> j < length rs \<and> session_id (rs ! i) = session_id (rs ! j)"
  then have "user_id (rs ! i) = uid" "user_id (rs ! j) = uid" using assms(1) by simp_all
  moreover have "map event_timestamp rs ! i \<le> map event_timestamp rs ! j"
    using assms(2) h by (intro sorted_nth_mono) simp_all
  ultimately show "user_id (rs ! i) = user_id (rs ! j) \<and>
        event_timestamp (rs ! i) \<le> event_timestamp (rs ! j)"
    using h by simp
qed

lemma session_coherent_append:
  assumes "session_coherent xs" and "session_coherent ys"
    and "\<forall>x\<in>set xs. \<forall>y\<in>set ys. session_id x \<noteq> session_id y"
  shows "session_coherent (xs @ ys)"
  unfolding session_coherent_def
proof (intro allI impI)
  fix i j
  assume h: "i < j \<and> j < length (xs @ ys) \<and>
      session_id ((xs @ ys) ! i) = session_id ((xs @ ys) ! j)"
  show "user_id ((xs @ ys) ! i) = user_id ((xs @ ys) ! j) \<and>
        event_timestamp ((xs @ ys) ! i) \<le> event_timestamp ((xs @ ys) ! j)"
  proof (cases "j < length xs")
    case True
    with h have "i < length xs" by simp
    with True h have "i < j \<and> j < length xs \<and> session_id (xs ! i) = session_id (xs ! j)"
      by (simp add: nth_append)
    with assms(1) have "user_id (xs ! i) = user_id (xs ! j) \<and>
        event_timestamp (xs ! i) \<le> event_timestamp (xs ! j)"
      unfolding session_coherent_def by blast
    with True \<open>i < length xs\<close> show ?thesis by (simp add: nth_append)
  next
    case False
    note j = this
    show ?thesis
    proof (cases "i < length xs")
      case True
      then have "xs ! i \<in> set xs" by simp
      moreover have "j - length xs < length ys" using j h by auto
      then have "ys ! (j - length xs) \<in> set ys" by simp
      ultimately have "session_id (xs ! i) \<noteq> session_id (ys ! (j - length xs))"
        using assms(3) by blast
      with h j True show ?thesis by (simp add: nth_append)
    next
      case False
      with j h have "i - length xs < j - length xs" "j - length xs < length ys"
        "session_id (ys ! (i - length xs)) = session_id (ys ! (j - length xs))"
        by (auto simp: nth_append)
      with assms(2) have "user_id (ys ! (i - length xs)) = user_id (ys ! (j - length xs)) \<and>
        event_timestamp (ys ! (i - length xs)) \<le> event_timestamp (ys ! (j - length xs))"
        unfolding session_coherent_def by blast
      with False j show ?thesis by (simp add: nth_append)
    qed
  qed
qed

lemma session_coherent_take:
  assumes "session_coherent xs"
  shows "session_coherent (take m xs)"
  unfolding session_coherent_def
proof (intro allI impI)
  fix i j
  assume h: "i < j \<and> j < length (take m xs) \<and>
      session_id (take m xs ! i) = session_id (take m xs ! j)"
  then have ij: "i < j" and jt: "j < length (take m xs)"
    and eq: "session_id (take m xs ! i) = session_id (take m xs ! j)"
    by blast+
  from jt have jm: "j < m" and jl: "j < length xs" by simp_all
  from ij jm have im: "i < m" by simp
  from eq im jm have "session_id (xs ! i) = session_id (xs ! j)" by simp
  with ij jl assms have "user_id (xs ! i) = user_id (xs ! j) \<and>
        event_timestamp (xs ! i) \<le> event_timestamp (xs ! j)"
    unfolding session_coherent_def by blast
  with im jm show "user_id (take m xs ! i) = user_id (take m xs ! j) \<and>
        event_timestamp (take m xs ! i) \<le> event_timestamp (take m xs ! j)"
    by simp
qed

lemma gen_sessions_coherent:
  assumes "gen_sessions e lens st = Some (Inr (rows, st'))" and "0 \<le> NOW e"
    and "inj_on (uuid_at e) {uuid_pos st..<uuid_pos st'}"
  shows "session_coherent rows"
  using assms(1,3)
proof (induction lens arbitrary: st rows)
  case Nil
  then show ?case by (simp add: session_coherent_def)
next
  case (Cons slen lens)
  from Cons.prems(1) obtain rs st1 rss where
    s: "gen_session e slen st = Some (Inr (rs, st1))"
    and t: "gen_sessions e lens st1 = Some (Inr (rss, st'))"
    and r: "rows = rs @ rss"
    by (rule gen_sessions_Cons_Inr)
  from gen_session_coherent [OF s assms(2)] obtain uid where
    sid: "\<forall>r\<in>set rs. session_id r = uuid_at e (uuid_pos st)"
    and uid: "\<forall>r\<in>set rs. user_id r = uid"
    and srt: "sorted (map event_timestamp rs)"
    and lt: "uuid_pos st < uuid_pos st1"
    by blast
  from gen_sessions_tokens [OF t assms(2)] have le: "uuid_pos st1 \<le> uuid_pos st'"
    and tl: "\<forall>r\<in>set rss. session_id r \<in> uuid_at e ` {uuid_pos st1..<uuid_pos st'}"
    by blast+
  have sub: "{uuid_pos st1..<uuid_pos st'} \<subseteq> {uuid_pos st..<uuid_pos st'}"
    using lt by auto
  have "inj_on (uuid_at e) {uuid_pos st1..<uuid_pos st'}"
    using Cons.prems(2) sub by (rule inj_on_subset)
  with Cons.IH [OF t] have c2: "session_coherent rss" by blast
  have c1: "session_coherent rs" using uid srt by (rule session_coherent_single)
  have "\<forall>x\<in>set rs. \<forall>y\<in>set rss. session_id x \<noteq> session_id y"
  proof (intro ballI notI)
    fix x y
    assume x: "x \<in> set rs" and y: "y \<in> set rss" and eq: "session_id x = session_id y"
    from tl y obtain q where q: "q \<in> {uuid_pos st1..<uuid_pos st'}"
      and yq: "session_id y = uuid_at e q" by blast
    from sid x eq yq have "uuid_at e (uuid_pos st) = uuid_at e q" by simp
    moreover have "uuid_pos st \<in> {uuid_pos st..<uuid_pos st'}" using lt le by simp
    moreover have "q \<in> {uuid_pos st..<uuid_pos st'}" using q sub by blast
    ultimately have "uuid_pos st = q" using Cons.prems(2) by (simp add: inj_on_def)
    with q lt show False by simp
  qed
  with c1 c2 r show ?case by (simp add: session_coherent_append)
qed

text \<open>
  C3.  In a generated chunk, two rows with the same session token have the same user
  and timestamps in emission order, provided the run starts at or after the epoch and
  the tokens that \<open>uuid4\<close> hands out during the call are pairwise different.
\<close>

theorem same_session_same_user_ordered:
  assumes "generate_chunk e n st = Some (Inr (df, st'))"
    and "0 \<le> NOW e"
    and "inj_on (uuid_at e) {uuid_pos st..<uuid_pos st'}"
  shows "session_coherent df"
proof -
  from generate_chunk_Inr [OF assms(1)] obtain lens tot st1 rows m where
    plan: "draw_session_lengths e n GEOM_P MAX_SESSION_LEN st = Some ((lens, tot), st1)"
    and rows: "gen_sessions e lens st1 = Some (Inr (rows, st'))" and df: "df = take m rows"
    by blast
  from session_loop_returns [of MAX_SESSION_LEN e n GEOM_P "[]" 0 st] plan
  have "uuid_pos st1 = uuid_pos st"
    by (auto simp: draw_session_lengths_def MAX_SESSION_LEN_def)
  with assms(3) have "inj_on (uuid_at e) {uuid_pos st1..<uuid_pos st'}" by simp
  with rows assms(2) have "session_coherent rows" by (rule gen_sessions_coherent)
  with df show ?thesis by (simp add: session_coherent_take)
qed

theorem same_session_same_user_ordered_witness:
  "generate_chunk (example_env example_stream) 5 initial_state =
     Some (Inr (example_chunk, \<lparr>np_pos = 51, uuid_pos = 10, fake_pos = 1\<rparr>)) \<and>
   session_coherent example_chunk \<and>
   map session_id example_chunk =
     [''00000000-0000-4000-8000-000000000000'', ''00000000-0000-4000-8000-000000000000'',
      ''00000000-0000-4000-8000-000000000003'', ''00000000-0000-4000-8000-000000000003'',
      ''00000000-0000-4000-8000-000000000006''] \<and>
   map user_id example_chunk = [1, 1, 2, 2, 2] \<and>
   map event_timestamp example_chunk =
     [1636929000, 1636929115, 1700000000, 1700000000, 1636928000]"
proof -
  let ?e = "example_env example_stream"
  have "0 \<le> NOW ?e" by (simp add: example_env_def)
  moreover have "inj_on (uuid_at ?e)
      {uuid_pos initial_state..<uuid_pos \<lparr>np_pos = 51, uuid_pos = 10, fake_pos = 1\<rparr>}"
    using example_tokens_distinct by (simp add: initial_state_def)
  ultimately have "session_coherent example_chunk"
    using same_session_same_user_ordered [OF example_run] by blast
  then show ?thesis using example_run by (simp add: example_chunk_def)
qed

section \<open>Serialised metadata reads back\<close>

lemma digit_char_props:
  assumes "n < 10"
  shows "is_digit (digit_char n)" and "digit_val (digit_char n) = int n"
proof -
  from assms have "n \<in> {0, 1, 2, 3, 4, 5, 6, 7, 8, 9}" by auto
  then show "is_digit (digit_char n)" and "digit_val (digit_char n) = int n"
    by (auto simp: is_digit_def digit_char_def digit_val_def)
qed

lemma digits_val_append: "digits_val (xs @ ys) acc = digits_val ys (digits_val xs acc)"
  by (induction xs arbitrary: acc) simp_all

lemma str_digits_props:
  "0 \<le> n \<Longrightarrow> str_digits n \<noteq> [] \<and> (\<forall>c\<in>set (str_digits n). is_digit c) \<and>
     digits_val (str_digits n) 0 = n"
proof (induction n rule: str_digits.induct)
  case (1 n)
  show ?case
  proof (cases "n < 10")
    case True
    with 1(2) have "nat n < 10" by simp
    from digit_char_props [OF this] 1(2) True show ?thesis
      by (subst (1 2 3) str_digits.simps) simp
  next
    case False
    then have "0 \<le> n div 10" by simp
    with 1(1) False have IH: "str_digits (n div 10) \<noteq> []"
      "\<forall>c\<in>set (str_digits (n div 10)). is_digit c"
      "digits_val (str_digits (n div 10)) 0 = n div 10"
      by simp_all
    have "nat (n mod 10) < 10" by simp
    from digit_char_props [OF this] have d: "is_digit (digit_char (nat (n mod 10)))"
      "digit_val (digit_char (nat (n mod 10))) = n mod 10"
      by simp_all
    from False IH d show ?thesis
      by (subst (1 2 3) str_digits.simps) (simp add: digits_val_append)
  qed
qed

lemma takeWhile_digits:
  assumes "\<forall>c\<in>set ds. is_digit c" and "rest = [] \<or> \<not> is_digit (hd rest)"
  shows "takeWhile is_digit (ds @ rest) = ds" and "dropWhile is_digit (ds @ rest) = rest"
proof -
  from assms(2) have "takeWhile is_digit rest = []" "dropWhile is_digit rest = rest"
    by (cases rest; simp)+
  with assms(1) show "takeWhile is_digit (ds @ rest) = ds"
    and "dropWhile is_digit (ds @ rest) = rest"
    by (simp_all add: takeWhile_append2 dropWhile_append2)
qed

lemma parse_int_str_int:
  assumes "rest = [] \<or> \<not> is_digit (hd rest)"
  shows "parse_int (str_int i @ rest) = Some (i, rest)"
proof (cases "i < 0")
  case True
  then have "0 \<le> - i" by simp
  from str_digits_props [OF this] have ne: "str_digits (- i) \<noteq> []"
    and dg: "\<forall>c\<in>set (str_digits (- i)). is_digit c"
    and v: "digits_val (str_digits (- i)) 0 = - i"
    by blast+
  from takeWhile_digits [OF dg assms] ne v True show ?thesis
    by (simp add: parse_int_def str_int_def)
next
  case False
  then have "0 \<le> i" by simp
  from str_digits_props [OF this] have ne: "str_digits i \<noteq> []"
    and dg: "\<forall>c\<in>set (str_digits i). is_digit c"
    and v: "digits_val (str_digits i) 0 = i"
    by blast+
  from ne obtain c cs where cs: "str_digits i = c # cs" by (cases "str_digits i") auto
  with dg have "is_digit c" by simp
  then have "c \<noteq> CHR ''-''" by (auto simp: is_digit_def)
  with takeWhile_digits [OF dg assms] ne v False cs show ?thesis
    by (simp add: parse_int_def str_int_def)
qed

lemma hex_val_hex_char: "n < 16 \<Longrightarrow> hex_val (hex_char n) = Some (int n)"
proof -
  have "\<forall>k\<in>set [0..<16]. hex_val (hex_char k) = Some (int k)"
    by code_simp
  moreover assume "n < 16"
  ultimately show ?thesis by simp
qed

lemma hex_pad_4:
  "hex_pad 4 v =
     [hex_char (nat (v div 16 div 16 div 16 mod 16)), hex_char (nat (v div 16 div 16 mod 16)),
      hex_char (nat (v div 16 mod 16)), hex_char (nat (v mod 16))]"
  by (simp add: eval_nat_numeral)

lemma unhex4_control:
  assumes "0 \<le> v" "v < 256"
  shows "case hex_pad 4 v of
           [h1, h2, h3, h4] \<Rightarrow> unhex4 h1 h2 h3 h4 = Some (char_of v)
         | _ \<Rightarrow> False"
proof -
  have a: "nat (v div 16 div 16 div 16 mod 16) < 16" "nat (v div 16 div 16 mod 16) < 16"
    "nat (v div 16 mod 16) < 16" "nat (v mod 16) < 16"
    by simp_all
  have z: "v div 16 div 16 = 0" using assms by simp
  have "((0 * 16 + 0) * 16 + v div 16 mod 16) * 16 + v mod 16 = v"
    using assms by simp
  with a z assms show ?thesis
    by (simp add: hex_pad_4 unhex4_def hex_val_hex_char)
qed

lemma parse_chars_escape:
  "parse_chars (escape_char c @ tail) =
     (case parse_chars tail of None \<Rightarrow> None | Some (s, r) \<Rightarrow> Some (c # s, r))"
proof -
  consider (special) "c \<in> {CHR 0x22, CHR 0x5C, CHR 0x08, CHR 0x0C, CHR 0x0A, CHR 0x0D, CHR 0x09}"
    | (control) "c \<notin> {CHR 0x22, CHR 0x5C, CHR 0x08, CHR 0x0C, CHR 0x0A, CHR 0x0D, CHR 0x09}"
        "(of_char c :: nat) < 32"
    | (plain) "c \<notin> {CHR 0x22, CHR 0x5C, CHR 0x08, CHR 0x0C, CHR 0x0A, CHR 0x0D, CHR 0x09}"
        "\<not> (of_char c :: nat) < 32"
    by blast
  then show ?thesis
  proof cases
    case special
    then show ?thesis
      by (auto simp: escape_char_def unescape_char_def split: option.splits)
  next
    case control
    let ?v = "of_char c :: int"
    have eq: "?v = int (of_char c)" by (simp add: of_nat_of_char)
    have v: "0 \<le> ?v" "?v < 256" "?v < 32"
      using control(2) nat_of_char_less_256 [of c] unfolding eq by linarith+
    from unhex4_control [OF v(1,2)] obtain h1 h2 h3 h4 where
      h: "hex_pad 4 ?v = [h1, h2, h3, h4]" and u: "unhex4 h1 h2 h3 h4 = Some c"
      by (auto split: list.splits)
    from control h u show ?thesis
      by (simp add: escape_char_def split: option.splits)
  next
    case plain
    have "(of_char c :: int) = int (of_char c)" by (simp add: of_nat_of_char)
    with plain(2) have "\<not> (of_char c :: int) < 32" by linarith
    with plain show ?thesis
      by (simp add: escape_char_def split: option.splits)
  qed
qed

lemma parse_chars_escaped:
  "parse_chars (concat (map escape_char s) @ CHR 0x22 # rest) = Some (s, rest)"
  by (induction s) (simp_all add: parse_chars_escape)

lemma parse_str_dumps_str: "parse_str (dumps_str s @ rest) = Some (s, rest)"
  by (simp add: parse_str_def dumps_str_def parse_chars_escaped)

lemma parse_strs_tail_join:
  "parse_strs_tail (CHR '','' # join '','' (map dumps_str (x # xs)) @ CHR '']'' # rest)
     = Some (x # xs, rest)"
  by (induction xs arbitrary: x) (simp_all add: parse_str_dumps_str)

lemma parse_strs_quote:
  "parse_strs (CHR 0x22 # cs) =
     (case parse_str (CHR 0x22 # cs) of
        None \<Rightarrow> None
      | Some (x, r) \<Rightarrow>
          (case parse_strs_tail r of None \<Rightarrow> None | Some (xs, r') \<Rightarrow> Some (x # xs, r')))"
  by (simp add: parse_strs_def)

lemma dumps_str_quote: "dumps_str s @ t = CHR 0x22 # concat (map escape_char s) @ CHR 0x22 # t"
  by (simp add: dumps_str_def)

lemma parse_strs_dumps:
  "parse_strs (join '','' (map dumps_str xs) @ CHR '']'' # rest) = Some (xs, rest)"
proof (cases xs)
  case Nil
  then show ?thesis by (simp add: parse_strs_def)
next
  case (Cons x xs')
  show ?thesis
  proof (cases xs')
    case Nil
    have "parse_strs (dumps_str x @ CHR '']'' # rest) = Some ([x], rest)"
      unfolding dumps_str_quote parse_strs_quote
      by (simp add: dumps_str_quote [symmetric] parse_str_dumps_str)
    with Nil Cons show ?thesis by simp
  next
    case (Cons y ys)
    let ?t = "CHR '','' # join '','' (map dumps_str (y # ys)) @ CHR '']'' # rest"
    have "parse_strs (dumps_str x @ ?t) = Some (x # y # ys, rest)"
      unfolding dumps_str_quote [of x] parse_strs_quote
      by (simp only: dumps_str_quote [of x, symmetric] parse_str_dumps_str
          parse_strs_tail_join option.case prod.case)
    with Cons \<open>xs = x # xs'\<close> show ?thesis by simp
  qed
qed

lemma str_int_hd: "\<exists>c cs. str_int i = c # cs \<and> c \<noteq> CHR 0x22 \<and> c \<noteq> CHR ''[''"
proof (cases "i < 0")
  case True
  then show ?thesis by (simp add: str_int_def)
next
  case False
  then have "0 \<le> i" by simp
  from str_digits_props [OF this] obtain c cs where "str_digits i = c # cs" "is_digit c"
    by (cases "str_digits i") auto
  with False show ?thesis by (auto simp: str_int_def is_digit_def)
qed

lemma parse_value_dumps:
  assumes "rest = [] \<or> \<not> is_digit (hd rest)"
  shows "parse_value (dumps_value v @ rest) = Some (v, rest)"
proof (cases v)
  case (JInt i)
  from str_int_hd [of i] obtain c cs where c: "str_int i = c # cs" "c \<noteq> CHR 0x22" "c \<noteq> CHR ''[''"
    by blast
  have "parse_int (str_int i @ rest) = Some (i, rest)" using assms by (rule parse_int_str_int)
  with c JInt show ?thesis by (simp add: parse_value_def)
next
  case (JStr s)
  then show ?thesis by (simp add: parse_value_def dumps_str_def parse_chars_escaped)
next
  case (JStrs xs)
  then show ?thesis using parse_strs_dumps [of xs rest] by (simp add: parse_value_def)
qed

lemma parse_member_dumps:
  assumes "rest = [] \<or> \<not> is_digit (hd rest)"
  shows "parse_member (dumps_member kv @ rest) = Some (kv, rest)"
  using parse_value_dumps [OF assms, of "snd kv"]
  by (simp add: parse_member_def dumps_member_def parse_str_dumps_str)

lemma parse_members_tail_join:
  "parse_members_tail (CHR '','' # join '','' (map dumps_member (kv # kvs)) @ ''}'')
     = Some (kv # kvs, [])"
  by (induction kvs arbitrary: kv) (simp_all add: parse_member_dumps is_digit_def)

lemma json_loads_quote:
  "json_loads (CHR ''{'' # CHR 0x22 # cs) =
     (case parse_member (CHR 0x22 # cs) of
        None \<Rightarrow> None
      | Some (kv, r) \<Rightarrow>
          (case parse_members_tail r of
             None \<Rightarrow> None
           | Some (kvs, r') \<Rightarrow> if r' = [] then Some (kv # kvs) else None))"
  by (simp add: json_loads_def)

lemma dumps_member_quote:
  "dumps_member kv @ t =
     CHR 0x22 # concat (map escape_char (fst kv)) @ CHR 0x22 # CHR '':'' # dumps_value (snd kv) @ t"
  by (simp add: dumps_member_def dumps_str_def)

lemma json_loads_dumps: "json_loads (json_dumps obj) = Some obj"
proof (cases obj)
  case Nil
  then show ?thesis by (simp add: json_loads_def json_dumps_def)
next
  case (Cons kv kvs)
  show ?thesis
  proof (cases kvs)
    case Nil
    have "parse_member (dumps_member kv @ ''}'') = Some (kv, ''}'')"
      by (rule parse_member_dumps) (simp add: is_digit_def)
    then have "json_loads (CHR ''{'' # dumps_member kv @ ''}'') = Some [kv]"
      unfolding dumps_member_quote json_loads_quote by simp
    with Nil Cons show ?thesis by (simp add: json_dumps_def)
  next
    case (Cons kv' kvs')
    let ?t = "CHR '','' # join '','' (map dumps_member (kv' # kvs')) @ ''}''"
    have "parse_member (dumps_member kv @ ?t) = Some (kv, ?t)"
      by (rule parse_member_dumps) (simp add: is_digit_def)
    then have "json_loads (CHR ''{'' # dumps_member kv @ ?t) = Some (kv # kv' # kvs')"
      unfolding dumps_member_quote json_loads_quote
      by (simp only: parse_members_tail_join option.case prod.case) simp
    with Cons \<open>obj = kv # kvs\<close> show ?thesis by (simp add: json_dumps_def)
  qed
qed

section \<open>Metadata\<close>

lemma meta_obj_of_keys:
  "map fst (fst (meta_obj_of e et st)) =
     (if et = ''read_online'' then [''reading_duration_minutes'', ''platform'']
      else if et = ''download'' then [''format'', ''device_os'', ''app_version'']
      else if et = ''review'' then [''rating'', ''review_text'']
      else [''search_terms'', ''results_count''])"
  by (simp add: meta_obj_of_def meta_read_online_def meta_download_def meta_review_def
      meta_search_def split_beta Let_def)

lemma gen_session_metadata:
  assumes "gen_session e slen st = Some (Inr (rs, st'))"
  shows "\<forall>r\<in>set rs. event_type r \<in> set EVENT_TYPES \<and>
           (\<exists>st2. event_metadata r = json_dumps (fst (meta_obj_of e (event_type r) st2)))"
proof -
  from gen_session_Inr [OF assms] obtain uid ts ets st4 where
    ets: "set ets \<subseteq> set EVENT_TYPES"
    and run: "session_events e (uuid_at e (uuid_pos st)) uid ets (datetime_fromtimestamp ts) st4
       = Some (Inr (rs, st'))"
    by blast
  from session_events_fields [OF run] have "map event_type rs = ets"
    and m: "\<forall>r\<in>set rs. \<exists>st2. event_metadata r = json_dumps (fst (meta_obj_of e (event_type r) st2))"
    by blast+
  then have "\<forall>r\<in>set rs. event_type r \<in> set ets" by auto
  with ets m show ?thesis by blast
qed

text \<open>
  C2.  For every row of a generated chunk, reading its \<open>event_metadata\<close> text back as
  JSON gives an object with pairwise different keys, and the set of the keys is the one
  fixed by the row's event type: \<open>reading_duration_minutes\<close> and \<open>platform\<close> for
  \<open>read_online\<close>; \<open>format\<close>, \<open>device_os\<close> and \<open>app_version\<close> for \<open>download\<close>;
  \<open>rating\<close> and \<open>review_text\<close> for \<open>review\<close>; \<open>search_terms\<close> and \<open>results_count\<close>
  for \<open>search\<close>.  The event type is one of these four.
\<close>

theorem metadata_keys_match_event_type:
  assumes "generate_chunk e n st = Some (Inr (df, st'))" and "r \<in> set df"
  shows "\<exists>obj. json_loads (event_metadata r) = Some obj \<and> distinct (map fst obj) \<and>
     (event_type r = ''read_online'' \<and>
        set (map fst obj) = {''reading_duration_minutes'', ''platform''} \<or>
      event_type r = ''download'' \<and>
        set (map fst obj) = {''format'', ''device_os'', ''app_version''} \<or>
      event_type r = ''review'' \<and>
        set (map fst obj) = {''rating'', ''review_text''} \<or>
      event_type r = ''search'' \<and>
        set (map fst obj) = {''search_terms'', ''results_count''})"
proof -
  from generate_chunk_Inr [OF assms(1)] obtain lens st1 rows m where
    rows: "gen_sessions e lens st1 = Some (Inr (rows, st'))" and df: "df = take m rows"
    by blast
  have "\<forall>r\<in>set rows. event_type r \<in> set EVENT_TYPES \<and>
           (\<exists>st2. event_metadata r = json_dumps (fst (meta_obj_of e (event_type r) st2)))"
    using rows gen_session_metadata by (rule gen_sessions_all)
  moreover have "r \<in> set rows" using assms(2) df by (auto dest: in_set_takeD)
  ultimately obtain st2 where
    et: "event_type r \<in> set EVENT_TYPES"
    and md: "event_metadata r = json_dumps (fst (meta_obj_of e (event_type r) st2))"
    by blast
  let ?obj = "fst (meta_obj_of e (event_type r) st2)"
  have "json_loads (event_metadata r) = Some ?obj" using md by (simp add: json_loads_dumps)
  moreover from et have "event_type r = ''read_online'' \<or> event_type r = ''download'' \<or>
      event_type r = ''review'' \<or> event_type r = ''search''"
    by (simp add: EVENT_TYPES_def)
  then have "distinct (map fst ?obj) \<and>
     (event_type r = ''read_online'' \<and>
        set (map fst ?obj) = {''reading_duration_minutes'', ''platform''} \<or>
      event_type r = ''download'' \<and>
        set (map fst ?obj) = {''format'', ''device_os'', ''app_version''} \<or>
      event_type r = ''review'' \<and>
        set (map fst ?obj) = {''rating'', ''review_text''} \<or>
      event_type r = ''search'' \<and>
        set (map fst ?obj) = {''search_terms'', ''results_count''})"
    unfolding meta_obj_of_keys by (elim disjE) simp_all
  ultimately show ?thesis by blast
qed

theorem metadata_keys_match_event_type_witness:
  "generate_chunk (example_env example_stream) 5 initial_state =
     Some (Inr (example_chunk, \<lparr>np_pos = 51, uuid_pos = 10, fake_pos = 1\<rparr>)) \<and>
   map (\<lambda>r. (event_type r, map_option (map fst) (json_loads (event_metadata r)))) example_chunk =
     [(''review'', Some [''rating'', ''review_text'']),
      (''search'', Some [''search_terms'', ''results_count'']),
      (''download'', Some [''format'', ''device_os'', ''app_version'']),
      (''read_online'', Some [''reading_duration_minutes'', ''platform'']),
      (''read_online'', Some [''reading_duration_minutes'', ''platform''])] \<and>
   (\<exists>obj. json_loads (event_metadata (example_chunk ! 1)) = Some obj \<and>
      set (map fst obj) = {''search_terms'', ''results_count''})"
proof -
  have "example_chunk ! 1 \<in> set example_chunk" by (simp add: example_chunk_def)
  from metadata_keys_match_event_type [OF example_run this]
  obtain obj where "json_loads (event_metadata (example_chunk ! 1)) = Some obj"
    and "event_type (example_chunk ! 1) = ''read_online'' \<and>
        set (map fst obj) = {''reading_duration_minutes'', ''platform''} \<or>
      event_type (example_chunk ! 1) = ''download'' \<and>
        set (map fst obj) = {''format'', ''device_os'', ''app_version''} \<or>
      event_type (example_chunk ! 1) = ''review'' \<and>
        set (map fst obj) = {''rating'', ''review_text''} \<or>
      event_type (example_chunk ! 1) = ''search'' \<and>
        set (map fst obj) = {''search_terms'', ''results_count''}"
    by blast
  moreover have "event_type (example_chunk ! 1) = ''search''" by (simp add: example_chunk_def)
  ultimately have "\<exists>obj. json_loads (event_metadata (example_chunk ! 1)) = Some obj \<and>
      set (map fst obj) = {''search_terms'', ''results_count''}"
    by auto
  then show ?thesis using example_run by (simp add: example_chunk_def json_loads_dumps)
qed

section \<open>The row-size estimate\<close>

lemma generate_chunk_nonpositive: "n \<le> 0 \<Longrightarrow> generate_chunk e n st = Some (Inr ([], st))"
  by (simp add: generate_chunk_def draw_session_lengths_def session_loop_done iloc_upto_def)

lemma estimate_of_chunk:
  "generate_chunk e n st = Some (Inr (df, st')) \<Longrightarrow>
   estimate_avg_row_bytes e n st =
     Some (Inr (of_nat (length (to_csv False df)) / of_nat (max 1 (length df)), st'))"
  by (auto simp: estimate_avg_row_bytes_def py_truediv_def max_def)

lemma estimate_error:
  "estimate_avg_row_bytes e n st = Some (Inl err) \<Longrightarrow> generate_chunk e n st = Some (Inl err)"
  by (auto simp: estimate_avg_row_bytes_def and_then_def py_truediv_def
      split: option.splits sum.splits if_splits)

lemma estimate_None:
  "(estimate_avg_row_bytes e n st = None) = (generate_chunk e n st = None)"
  by (auto simp: estimate_avg_row_bytes_def and_then_def py_truediv_def
      split: option.splits sum.splits if_splits)

text \<open>
  C10.  \<open>estimate_avg_row_bytes\<close> adds no failure to those of \<open>generate_chunk\<close>: the
  divisor is the maximum of 1 and the number of rows, so the division never raises.  A
  request of zero rows gives 0; whenever the generator returns a frame the estimate is
  the byte count of its text over that divisor; an error or a run that never returns
  can only come from the generator; and for \<open>n \<ge> 0\<close> on a stream whose ranks return to
  the pools the estimate is a value.
\<close>

theorem estimate_avg_row_bytes_defined:
  "estimate_avg_row_bytes e 0 st = Some (Inr (0, st)) \<and>
   (generate_chunk e n st = Some (Inr (df, st')) \<longrightarrow>
      estimate_avg_row_bytes e n st =
        Some (Inr (of_nat (length (to_csv False df)) / of_nat (max 1 (length df)), st'))) \<and>
   (estimate_avg_row_bytes e n st = Some (Inl err) \<longrightarrow>
      generate_chunk e n st = Some (Inl err)) \<and>
   (estimate_avg_row_bytes e n st = None) = (generate_chunk e n st = None) \<and>
   (0 \<le> n \<and> ranks_recur e (USER_POOL_SIZE e) \<and> ranks_recur e (BOOK_POOL_SIZE e) \<and>
    is_pool_permutation (USER_ID_MAP e) (USER_POOL_SIZE e) \<and>
    is_pool_permutation (BOOK_ID_MAP e) (BOOK_POOL_SIZE e) \<longrightarrow>
      (\<exists>avg st1. estimate_avg_row_bytes e n st = Some (Inr (avg, st1)) \<and> 0 \<le> avg))"
proof (intro conjI impI)
  have "generate_chunk e 0 st = Some (Inr ([], st))" by (rule generate_chunk_nonpositive) simp
  from estimate_of_chunk [OF this]
  show "estimate_avg_row_bytes e 0 st = Some (Inr (0, st))" by (simp add: to_csv_def)
next
  assume "generate_chunk e n st = Some (Inr (df, st'))"
  then show "estimate_avg_row_bytes e n st =
        Some (Inr (of_nat (length (to_csv False df)) / of_nat (max 1 (length df)), st'))"
    by (rule estimate_of_chunk)
next
  assume "estimate_avg_row_bytes e n st = Some (Inl err)"
  then show "generate_chunk e n st = Some (Inl err)" by (rule estimate_error)
next
  show "(estimate_avg_row_bytes e n st = None) = (generate_chunk e n st = None)"
    by (rule estimate_None)
next
  assume h: "0 \<le> n \<and> ranks_recur e (USER_POOL_SIZE e) \<and> ranks_recur e (BOOK_POOL_SIZE e) \<and>
    is_pool_permutation (USER_ID_MAP e) (USER_POOL_SIZE e) \<and>
    is_pool_permutation (BOOK_ID_MAP e) (BOOK_POOL_SIZE e)"
  then obtain rows st1 where "generate_chunk e n st = Some (Inr (take (nat n) rows, st1))"
    using generate_chunk_returns [of n e st] by blast
  from estimate_of_chunk [OF this]
  show "\<exists>avg st1. estimate_avg_row_bytes e n st = Some (Inr (avg, st1)) \<and> 0 \<le> avg"
    by (intro exI conjI) (assumption, simp)
qed

lemma example_csv_length: "length (to_csv False example_chunk) = 866"
  by code_simp

theorem estimate_avg_row_bytes_defined_witness:
  "estimate_avg_row_bytes (example_env example_stream) 0 initial_state
     = Some (Inr (0, initial_state)) \<and>
   estimate_avg_row_bytes (example_env example_stream) 5 initial_state
     = Some (Inr (866 / 5, \<lparr>np_pos = 51, uuid_pos = 10, fake_pos = 1\<rparr>)) \<and>
   (\<exists>avg st1. estimate_avg_row_bytes (example_env example_stream) 5 initial_state
       = Some (Inr (avg, st1)) \<and> 0 \<le> avg)"
proof -
  let ?e = "example_env example_stream"
  note t = estimate_avg_row_bytes_defined [of ?e initial_state 5 example_chunk
      "\<lparr>np_pos = 51, uuid_pos = 10, fake_pos = 1\<rparr>"]
  have u: "ranks_recur ?e (USER_POOL_SIZE ?e)" and b: "ranks_recur ?e (BOOK_POOL_SIZE ?e)"
    by (rule example_ranks_recur, simp add: example_env_def)+
  have "\<exists>avg st1. estimate_avg_row_bytes ?e 5 initial_state = Some (Inr (avg, st1)) \<and> 0 \<le> avg"
    using t u b example_pools [of example_stream] by simp
  moreover have "length example_chunk = 5" by (simp add: example_chunk_def)
  ultimately show ?thesis using t example_run example_csv_length by simp
qed

section \<open>Configurations that are not checked\<close>

lemma generate_chunk_empty_pool:
  assumes "USER_POOL_SIZE e \<le> 0" and "0 < n"
  shows "generate_chunk e n st = None"
proof -
  from draw_session_lengths_returns [of e n st] obtain lens st1 where
    plan: "draw_session_lengths e n GEOM_P MAX_SESSION_LEN st = Some ((lens, sum_list lens), st1)"
    and tgt: "n \<le> sum_list lens"
    by blast
  from tgt assms(2) obtain slen rest where lens: "lens = slen # rest"
    by (cases lens) auto
  have "\<forall>k. USER_POOL_SIZE e < zipf_rank e (st1\<lparr>uuid_pos := Suc (uuid_pos st1)\<rparr>) k"
  proof
    fix k
    have "0 \<le> \<bar>np_raw e (np_pos st1 + k)\<bar>" by simp
    with assms(1) show "USER_POOL_SIZE e < zipf_rank e (st1\<lparr>uuid_pos := Suc (uuid_pos st1)\<rparr>) k"
      by (simp add: zipf_rank_def)
  qed
  then have "draw_zipf_id e (USER_POOL_SIZE e) (125 / 100) (USER_ID_MAP e)
      (st1\<lparr>uuid_pos := Suc (uuid_pos st1)\<rparr>) = None"
    by (rule draw_zipf_id_never)
  then have "gen_session e slen st1 = None"
    by (simp add: gen_session_def uuid4_eq)
  with plan lens show ?thesis by (simp add: generate_chunk_def)
qed

lemma main_empty_pool:
  assumes "USER_POOL_SIZE e \<le> 0" and "0 < SAMPLE_ROWS e"
  shows "main e st = None"
  using generate_chunk_empty_pool [OF assms, of st]
  by (simp add: main_def estimate_avg_row_bytes_def)

lemma stream_loop_Some:
  "stream_loop e target_rows written first_write out st = Some y \<Longrightarrow>
   DEFAULT_CHUNK_ROWS e \<le> 0 \<Longrightarrow> target_rows \<le> written"
proof (induction rule: stream_loop.raw_induct [rotated 1, consumes 1])
  case (1 loop e target_rows written first_write out st y)
  show ?case
  proof (rule ccontr)
    assume "\<not> target_rows \<le> written"
    then have lt: "written < target_rows" by simp
    let ?n = "min (DEFAULT_CHUNK_ROWS e) (target_rows - written)"
    have "?n \<le> 0" using 1(3) by simp
    then have g: "generate_chunk e ?n st = Some (Inr ([], st))" by (rule generate_chunk_nonpositive)
    from 1(2) lt g have "loop e target_rows written False
        (Some ((if first_write then [] else (case out of None \<Rightarrow> [] | Some old \<Rightarrow> old))
               @ to_csv first_write [])) st = Some y"
      by (simp add: Let_def)
    from 1(1) [OF this 1(3)] lt show False by simp
  qed
qed

lemma stream_loop_stuck:
  assumes "DEFAULT_CHUNK_ROWS e \<le> 0" and "written < target_rows"
  shows "stream_loop e target_rows written first_write out st = None"
proof (rule ccontr)
  assume "stream_loop e target_rows written first_write out st \<noteq> None"
  then obtain y where "stream_loop e target_rows written first_write out st = Some y" by blast
  from stream_loop_Some [OF this assms(1)] assms(2) show False by simp
qed

text \<open>
  C9 (amended).  Nothing checks the configuration.  With a user pool size of zero or
  less, every rank is rejected: a request for at least one row never returns, and so
  \<open>main\<close> never returns and reports nothing.  With a chunk size of zero or less, the
  streaming loop never ends once there is a row left to write.
\<close>

theorem no_configuration_check:
  "(USER_POOL_SIZE e \<le> 0 \<and> 0 < n \<longrightarrow> generate_chunk e n st = None) \<and>
   (USER_POOL_SIZE e \<le> 0 \<and> 0 < SAMPLE_ROWS e \<longrightarrow> main e st = None) \<and>
   (DEFAULT_CHUNK_ROWS e \<le> 0 \<and> written < target_rows \<longrightarrow>
      stream_loop e target_rows written first_write out st = None)"
  using generate_chunk_empty_pool [of e n st] main_empty_pool [of e st]
    stream_loop_stuck [of e written target_rows first_write out st]
  by blast

theorem no_configuration_check_witness:
  "generate_chunk empty_pool_env 1 initial_state = None \<and>
   main empty_pool_env initial_state = None \<and>
   stream_loop zero_chunk_env 3 0 True None initial_state = None"
  using no_configuration_check [of empty_pool_env 1 initial_state 0 3 True None]
    no_configuration_check [of zero_chunk_env 1 initial_state 0 3 True None]
  by (simp add: empty_pool_env_def zero_chunk_env_def example_env_def)

text \<open>
  C9 as stated fails: with an empty user pool \<open>main\<close> reports no configuration error;
  it does not return at all.
\<close>

theorem empty_pool_never_reports:
  "main empty_pool_env initial_state = None"
  by (rule main_empty_pool) (simp_all add: empty_pool_env_def example_env_def)

section \<open>The writer stops after one top-up\<close>











section \<open>Two runs with one seed\<close>

lemma first_run:
  "main first_run_env initial_state =
     Some (Inr (\<lparr>rows_written = 1, final_size = 253, out_file = to_csv True [first_run_row]\<rparr>,
                \<lparr>np_pos = 16, uuid_pos = 4, fake_pos = 0\<rparr>))"
  by code_simp

lemma second_run:
  "main second_run_env initial_state =
     Some (Inr (\<lparr>rows_written = 1, final_size = 253, out_file = to_csv True [second_run_row]\<rparr>,
                \<lparr>np_pos = 16, uuid_pos = 4, fake_pos = 0\<rparr>))"
  by code_simp

lemma run_files_differ: "to_csv True [first_run_row] \<noteq> to_csv True [second_run_row]"
  by code_simp

text \<open>
  C1 does not hold of the code: \<open>event_id\<close> and \<open>session_id\<close> come from \<open>uuid.uuid4\<close>,
  which neither \<open>np.random.seed\<close> nor \<open>Faker.seed\<close> reaches.  Two runs that agree in the
  seed and in everything derived from it, and differ only in the entropy of the
  operating system, write different files.
\<close>

theorem same_seed_different_files:
  "second_run_env = first_run_env\<lparr>os_urandom := os_urandom second_run_env\<rparr> \<and>
   file_of (main first_run_env initial_state) = Some (to_csv True [first_run_row]) \<and>
   file_of (main second_run_env initial_state) = Some (to_csv True [second_run_row]) \<and>
   file_of (main first_run_env initial_state) \<noteq> file_of (main second_run_env initial_state)"
proof -
  have "second_run_env = first_run_env\<lparr>os_urandom := os_urandom second_run_env\<rparr>"
    by (simp add: second_run_env_def)
  moreover have "file_of (main first_run_env initial_state) = Some (to_csv True [first_run_row])"
    "file_of (main second_run_env initial_state) = Some (to_csv True [second_run_row])"
    by (simp_all add: first_run second_run file_of_def)
  ultimately show ?thesis using run_files_differ by simp
qed

end
